theory Spec2Isabelle
  imports Complex_Main
begin

section \<open>Machine integers\<close>

text \<open>
  The sources declare their integers as \<^verbatim>\<open>int\<close>, \<^verbatim>\<open>long\<close> and \<^verbatim>\<open>long long\<close>.
  They are modelled as mathematical integers on which every arithmetic result is wrapped
  to the width of its C++ type (two's complement): \<^verbatim>\<open>int\<close> has 32 bits, and
  \<^verbatim>\<open>long\<close> and \<^verbatim>\<open>long long\<close> have 64 bits (the LP64 data model of 64-bit Linux,
  for which these LeetCode solutions were written).
\<close>

definition wrap :: "nat \<Rightarrow> int \<Rightarrow> int" where
  "wrap w z = (z + 2 ^ (w - 1)) mod 2 ^ w - 2 ^ (w - 1)"

definition to_int :: "int \<Rightarrow> int" where
  "to_int z = wrap 32 z"

definition to_long :: "int \<Rightarrow> int" where
  "to_long z = wrap 64 z"

definition INT_MAX :: int where
  "INT_MAX = 2 ^ 31 - 1"

text \<open>The C++ operator \<^verbatim>\<open>/\<close> on integers truncates towards zero.\<close>

definition tdiv :: "int \<Rightarrow> int \<Rightarrow> int" where
  "tdiv a b = sgn a * sgn b * (\<bar>a\<bar> div \<bar>b\<bar>)"

section \<open>Doubles\<close>

text \<open>
  A \<^verbatim>\<open>double\<close> is an IEEE 754 binary64 number. A finite double is modelled by the real
  number it denotes, and every operation returns the exact real result rounded once, to
  the nearest double, ties to the even mantissa (the default rounding mode).

  \<open>binade x\<close> is the exponent \<open>e\<close> with \<open>2\<^sup>e \<le> x < 2\<^sup>e\<^sup>+\<^sup>1\<close> of a positive \<open>x\<close>. A double
  has 53 mantissa bits, so the doubles near \<open>x\<close> are the multiples of
  \<open>2 powi (binade x - 52)\<close>; below the smallest normal number \<open>2 powi (- 1022)\<close> the
  spacing stays at \<open>2 powi (- 1074)\<close> (subnormal numbers).
\<close>

function binade :: "real \<Rightarrow> int" where
  "binade x =
     (if x \<le> 0 then 0
      else if 2 \<le> x then binade (x / 2) + 1
      else if x < 1 then binade (2 * x) - 1
      else 0)"
  by pat_completeness auto
termination
proof (relation "measure (\<lambda>x. nat \<bar>\<lfloor>log 2 x\<rfloor>\<bar>)")
  show "wf (measure (\<lambda>x. nat \<bar>\<lfloor>log 2 x\<rfloor>\<bar>))" by simp
next
  fix x :: real
  assume "\<not> x \<le> 0" "2 \<le> x"
  then have "log 2 (x / 2) = log 2 x - 1"
    by (simp add: log_divide)
  moreover have "1 \<le> log 2 x"
    using \<open>2 \<le> x\<close> by simp
  then have "1 \<le> \<lfloor>log 2 x\<rfloor>" by linarith
  ultimately show "(x / 2, x) \<in> measure (\<lambda>x. nat \<bar>\<lfloor>log 2 x\<rfloor>\<bar>)"
    by simp
next
  fix x :: real
  assume "\<not> x \<le> 0" "\<not> 2 \<le> x" "x < 1"
  then have "log 2 (2 * x) = 1 + log 2 x"
    by (simp add: log_mult)
  moreover have "log 2 x < 0"
    using \<open>\<not> x \<le> 0\<close> \<open>x < 1\<close> by simp
  then have "\<lfloor>log 2 x\<rfloor> \<le> - 1" by linarith
  ultimately show "(2 * x, x) \<in> measure (\<lambda>x. nat \<bar>\<lfloor>log 2 x\<rfloor>\<bar>)"
    by simp
qed

declare binade.simps [simp del]

definition ulp_exp :: "real \<Rightarrow> int" where
  "ulp_exp x = max (binade \<bar>x\<bar> - 52) (- 1074)"

text \<open>Rounding to the nearest integer, a tie to the even one.\<close>

definition round_even :: "real \<Rightarrow> int" where
  "round_even y =
     (let f = \<lfloor>y\<rfloor> in
      if y - of_int f < 1 / 2 then f
      else if 1 / 2 < y - of_int f then f + 1
      else if even f then f else f + 1)"

text \<open>Rounding a real number to the nearest double, before the check for overflow.\<close>

definition fl :: "real \<Rightarrow> real" where
  "fl x = of_int (round_even (x / 2 powi ulp_exp x)) * 2 powi ulp_exp x"

definition DBL_MAX :: real where
  "DBL_MAX = (2 ^ 53 - 1) * 2 ^ 971"

text \<open>
  Whatever leaves the finite doubles, or is undefined behaviour in C++, is a fault of the
  run: a division by zero, a result that is infinite or not a number, and a conversion
  to an integer type that cannot hold the value.
\<close>

datatype fault = DivisionByZero | NotFinite | OutOfRange

definition to_double :: "real \<Rightarrow> fault + real" where
  "to_double x = (if \<bar>fl x\<bar> \<le> DBL_MAX then Inr (fl x) else Inl NotFinite)"

definition d_of_int :: "int \<Rightarrow> fault + real" where
  "d_of_int i = to_double (of_int i)"

definition dadd :: "real \<Rightarrow> real \<Rightarrow> fault + real" where
  "dadd a b = to_double (a + b)"

definition dsub :: "real \<Rightarrow> real \<Rightarrow> fault + real" where
  "dsub a b = to_double (a - b)"

definition dmul :: "real \<Rightarrow> real \<Rightarrow> fault + real" where
  "dmul a b = to_double (a * b)"

definition ddiv :: "real \<Rightarrow> real \<Rightarrow> fault + real" where
  "ddiv a b = (if b = 0 then Inl DivisionByZero else to_double (a / b))"

text \<open>
  The library function \<^verbatim>\<open>sqrt\<close> is not part of the repository. It is modelled by
  what IEEE 754 requires of the square root: the exact root, correctly rounded. It is
  specified through the real square root and so is the one operation here that cannot be
  evaluated on an input; the theorems about \<^verbatim>\<open>arrangeCoins\<close> use only that rounding is
  monotone and leaves the integers below \<open>2\<^sup>5\<^sup>3\<close> unchanged.
\<close>

definition dsqrt :: "real \<Rightarrow> fault + real" where
  "dsqrt a = (if a < 0 then Inl NotFinite else to_double (sqrt a))"

text \<open>Converting a double to an integer type drops the fraction.\<close>

definition trunc :: "real \<Rightarrow> int" where
  "trunc a = (if 0 \<le> a then \<lfloor>a\<rfloor> else \<lceil>a\<rceil>)"

definition d_to_int :: "real \<Rightarrow> fault + int" where
  "d_to_int a = (if - (2 ^ 31) \<le> trunc a \<and> trunc a < 2 ^ 31 then Inr (trunc a) else Inl OutOfRange)"

definition d_to_long :: "real \<Rightarrow> fault + int" where
  "d_to_long a = (if - (2 ^ 63) \<le> trunc a \<and> trunc a < 2 ^ 63 then Inr (trunc a) else Inl OutOfRange)"

text \<open>Sequencing: the first fault ends the computation.\<close>

fun and_then :: "fault + 'a \<Rightarrow> ('a \<Rightarrow> fault + 'b) \<Rightarrow> fault + 'b" where
  "and_then (Inl e) f = Inl e"
| "and_then (Inr v) f = f v"

text \<open>The reals that are doubles (overflow is checked separately, by \<open>to_double\<close>).\<close>

definition is_double :: "real \<Rightarrow> bool" where
  "is_double x \<longleftrightarrow> (\<exists>m e. x = of_int m * 2 powi e \<and> \<bar>m\<bar> < 2 ^ 53 \<and> - 1074 \<le> e)"

section \<open>374: guessNumber\<close>

text \<open>
  \<^verbatim>\<open>
    int guessNumber(int n) {
        long left=1,right=n,c=(left+right+1)/2;
        int g=guess(c);
        while(g!=0)
        {
            if(g==1)
            {
                left=c+1;
                c=(left+right+1)/2;
            }
            else if(g==-1)
            {
                right=c-1;
                c=(left+right+1)/2;
            }
            g=guess(c);
        }
        return c;
    }
  \<close>
\<close>

text \<open>
  Modelled from the spec: the oracle \<^verbatim>\<open>int guess(int num)\<close>, which the source only
  declares (in a comment) and the judge supplies. Following the specification it compares
  the candidate with the secret \<open>s\<close>: \<open>1\<close> when the secret is greater than the candidate,
  \<open>-1\<close> when it is smaller, \<open>0\<close> when they are equal. This is the reading under which the
  loop of the source moves \<^verbatim>\<open>left\<close> up on \<open>1\<close> and \<^verbatim>\<open>right\<close> down on \<open>-1\<close>.
\<close>

definition guess :: "int \<Rightarrow> int \<Rightarrow> int" where
  "guess s num = (if s > num then 1 else if s < num then - 1 else 0)"

text \<open>
  The expression \<^verbatim>\<open>(left+right+1)/2\<close> on \<^verbatim>\<open>long\<close> operands: two additions and a
  division, each wrapped to 64 bits.
\<close>

definition midpoint :: "int \<Rightarrow> int \<Rightarrow> int" where
  "midpoint left right = to_long (tdiv (to_long (to_long (left + right) + 1)) 2)"

text \<open>
  One record per invocation of the oracle: the bounds and the candidate at that moment,
  and the argument the oracle receives (the candidate converted to \<^verbatim>\<open>int\<close>).
\<close>

record probe =
  p_left :: int
  p_right :: int
  p_c :: int
  p_arg :: int

definition ask :: "int \<Rightarrow> int \<Rightarrow> int \<Rightarrow> probe" where
  "ask left right c = \<lparr>p_left = left, p_right = right, p_c = c, p_arg = to_int c\<rparr>"

text \<open>
  The \<^verbatim>\<open>while(g!=0)\<close> loop. It need not terminate (a secret outside the bounds keeps it
  running), so it is a partial function: \<open>None\<close> stands for a run that never returns.
  The last argument lists the oracle invocations made so far; the loop appends to it
  at every \<^verbatim>\<open>g=guess(c)\<close>.
\<close>

partial_function (option) guess_loop ::
  "int \<Rightarrow> int \<Rightarrow> int \<Rightarrow> int \<Rightarrow> int \<Rightarrow> probe list \<Rightarrow> (int \<times> probe list) option" where
  "guess_loop s left right c g calls =
     (if g \<noteq> 0 then
        (if g = 1 then
           (let left' = to_long (c + 1); c' = midpoint left' right
            in guess_loop s left' right c' (guess s (to_int c')) (calls @ [ask left' right c']))
         else if g = - 1 then
           (let right' = to_long (c - 1); c' = midpoint left right'
            in guess_loop s left right' c' (guess s (to_int c')) (calls @ [ask left right' c']))
         else guess_loop s left right c (guess s (to_int c)) (calls @ [ask left right c]))
      else Some (to_int c, calls))"

declare guess_loop.simps [code]

definition guessNumber :: "int \<Rightarrow> int \<Rightarrow> (int \<times> probe list) option" where
  "guessNumber s n =
     (let left = 1; right = to_long n; c = midpoint left right
      in guess_loop s left right c (guess s (to_int c)) [ask left right c])"

text \<open>
  What holds at every invocation of the oracle in a run on an admissible input: the
  bounds enclose the secret and the candidate, stay within \<open>[1, n]\<close>, the candidate is
  the exact integer midpoint, and the \<^verbatim>\<open>int\<close> the oracle receives is the candidate.
\<close>

definition probe_ok :: "int \<Rightarrow> int \<Rightarrow> probe \<Rightarrow> bool" where
  "probe_ok s n p \<longleftrightarrow>
     1 \<le> p_left p \<and> p_left p \<le> p_c p \<and> p_c p \<le> p_right p \<and> p_right p \<le> n \<and>
     p_left p \<le> s \<and> s \<le> p_right p \<and> p_arg p = p_c p \<and>
     p_c p = (p_left p + p_right p + 1) div 2"

section \<open>441: arrangeCoins\<close>

text \<open>
  \<^verbatim>\<open>
    int arrangeCoins(int n) {
        int j=1;
        long i=(sqrt( (long long) 8*n+1)-1)/2+1;
        while(i*(i+1)/2>n)
        {
            i=i-1;
        }
        return i;
    }
  \<close>
  The local \<^verbatim>\<open>j\<close> is never used. The cast binds to \<^verbatim>\<open>8\<close>, so \<^verbatim>\<open>8*n+1\<close> is computed
  in \<^verbatim>\<open>long long\<close>; the square root, the subtraction, the division and the addition
  are double operations, and the initialisation of \<^verbatim>\<open>i\<close> truncates the double.
\<close>

definition discriminant :: "int \<Rightarrow> int" where
  "discriminant n = to_long (to_long (8 * n) + 1)"

definition estimate :: "int \<Rightarrow> fault + int" where
  "estimate n =
     and_then (d_of_int (discriminant n)) (\<lambda>v.
     and_then (dsqrt v) (\<lambda>r.
     and_then (dsub r 1) (\<lambda>t.
     and_then (ddiv t 2) (\<lambda>h.
     and_then (dadd h 1) d_to_long))))"

text \<open>The loop condition \<^verbatim>\<open>i*(i+1)/2>n\<close>, in \<^verbatim>\<open>long\<close> arithmetic.\<close>

definition overshoots :: "int \<Rightarrow> int \<Rightarrow> bool" where
  "overshoots n i \<longleftrightarrow> to_long (tdiv (to_long (i * to_long (i + 1))) 2) > to_long n"

text \<open>
  The loop returns the result together with the values of \<^verbatim>\<open>i\<close> at which it evaluated
  its condition, in order.
\<close>

partial_function (option) coins_loop :: "int \<Rightarrow> int \<Rightarrow> int list \<Rightarrow> (int \<times> int list) option" where
  "coins_loop n i seen =
     (if overshoots n i then coins_loop n (to_long (i - 1)) (seen @ [i])
      else Some (to_int i, seen @ [i]))"

declare coins_loop.simps [code]

definition arrangeCoins :: "int \<Rightarrow> (fault + int \<times> int list) option" where
  "arrangeCoins n =
     (case estimate n of
        Inl e \<Rightarrow> Some (Inl e)
      | Inr i \<Rightarrow> map_option Inr (coins_loop n i []))"

text \<open>\<open>k\<close> complete rows: \<open>k * (k + 1) / 2 \<le> n < (k + 1) * (k + 2) / 2\<close>.\<close>

definition rows_ok :: "int \<Rightarrow> int \<Rightarrow> bool" where
  "rows_ok n k \<longleftrightarrow> 0 \<le> k \<and> k * (k + 1) div 2 \<le> n \<and> n < (k + 1) * (k + 2) div 2"

section \<open>69: mySqrt\<close>

text \<open>
  \<^verbatim>\<open>
    int mySqrt(int x) {
        double a=1+x/2;
        while(a*a>x+0.1)
        {
            a=(a+x/a)/2;
        }
        return int(a);
    }
  \<close>
  \<^verbatim>\<open>1+x/2\<close> is \<^verbatim>\<open>int\<close> arithmetic, converted to double afterwards. The literal
  \<^verbatim>\<open>0.1\<close> is the double nearest to one tenth.
\<close>

definition lit_0_1 :: real where
  "lit_0_1 = fl (1 / 10)"

definition loop_test :: "int \<Rightarrow> real \<Rightarrow> fault + bool" where
  "loop_test x a =
     and_then (dmul a a) (\<lambda>aa.
     and_then (d_of_int x) (\<lambda>xd.
     and_then (dadd xd lit_0_1) (\<lambda>t. Inr (aa > t))))"

definition newton_step :: "int \<Rightarrow> real \<Rightarrow> fault + real" where
  "newton_step x a =
     and_then (d_of_int x) (\<lambda>xd.
     and_then (ddiv xd a) (\<lambda>q.
     and_then (dadd a q) (\<lambda>s. ddiv s 2)))"

text \<open>
  The loop returns the last iterate together with the values of \<^verbatim>\<open>a\<close> by which it
  divided \<^verbatim>\<open>x\<close>, in order (one per iteration).
\<close>

partial_function (option) sqrt_loop ::
  "int \<Rightarrow> real \<Rightarrow> real list \<Rightarrow> (fault + real \<times> real list) option" where
  "sqrt_loop x a ds =
     (case loop_test x a of
        Inl e \<Rightarrow> Some (Inl e)
      | Inr b \<Rightarrow>
          if b then
            (case newton_step x a of
               Inl e \<Rightarrow> Some (Inl e)
             | Inr a' \<Rightarrow> sqrt_loop x a' (ds @ [a]))
          else Some (Inr (a, ds)))"

declare sqrt_loop.simps [code]

definition mySqrt :: "int \<Rightarrow> (fault + int \<times> real list) option" where
  "mySqrt x =
     (case d_of_int (to_int (1 + to_int (tdiv x 2))) of
        Inl e \<Rightarrow> Some (Inl e)
      | Inr a0 \<Rightarrow>
          (case sqrt_loop x a0 [] of
             None \<Rightarrow> None
           | Some (Inl e) \<Rightarrow> Some (Inl e)
           | Some (Inr (a, ds)) \<Rightarrow> Some (and_then (d_to_int a) (\<lambda>r. Inr (r, ds)))))"

text \<open>\<open>r\<close> is the integer square root of \<open>x\<close>.\<close>

definition root_ok :: "int \<Rightarrow> int \<Rightarrow> bool" where
  "root_ok x r \<longleftrightarrow> 0 \<le> r \<and> r * r \<le> x \<and> x < (r + 1) * (r + 1)"

text \<open>
  The values the loop condition and the loop body compute when no fault occurs: the
  right-hand side \<^verbatim>\<open>x+0.1\<close> and the next iterate \<^verbatim>\<open>(a+x/a)/2\<close>.
\<close>

definition threshold :: "int \<Rightarrow> real" where
  "threshold x = fl (of_int x + lit_0_1)"

definition newton :: "int \<Rightarrow> real \<Rightarrow> real" where
  "newton x a = fl (fl (a + fl (of_int x / a)) / 2)"

section \<open>guessNumber against any oracle\<close>

text \<open>
  The loop of \<^verbatim>\<open>guessNumber\<close> once more, as a relation between its variables and the
  value returned, one rule per path through the loop body. Here the oracle \<open>api\<close> is an
  arbitrary function from \<^verbatim>\<open>int\<close> to \<^verbatim>\<open>int\<close>: the relation has no access to a secret.
\<close>

inductive guess_steps :: "(int \<Rightarrow> int) \<Rightarrow> int \<Rightarrow> int \<Rightarrow> int \<Rightarrow> int \<Rightarrow> int \<Rightarrow> bool"
  for api :: "int \<Rightarrow> int" where
  found: "g = 0 \<Longrightarrow> guess_steps api left right c g (to_int c)"
| higher: "g = 1 \<Longrightarrow> left' = to_long (c + 1) \<Longrightarrow> c' = midpoint left' right \<Longrightarrow>
     guess_steps api left' right c' (api (to_int c')) res \<Longrightarrow>
     guess_steps api left right c g res"
| lower: "g = - 1 \<Longrightarrow> right' = to_long (c - 1) \<Longrightarrow> c' = midpoint left right' \<Longrightarrow>
     guess_steps api left right' c' (api (to_int c')) res \<Longrightarrow>
     guess_steps api left right c g res"
| again: "g \<noteq> 0 \<Longrightarrow> g \<noteq> 1 \<Longrightarrow> g \<noteq> - 1 \<Longrightarrow>
     guess_steps api left right c (api (to_int c)) res \<Longrightarrow>
     guess_steps api left right c g res"

definition guessNumber_rel :: "(int \<Rightarrow> int) \<Rightarrow> int \<Rightarrow> int \<Rightarrow> bool" where
  "guessNumber_rel api n res \<longleftrightarrow>
     guess_steps api 1 (to_long n) (midpoint 1 (to_long n))
       (api (to_int (midpoint 1 (to_long n)))) res"

section \<open>Integer conversions\<close>

lemma to_long_id: "- (2 ^ 63) \<le> z \<Longrightarrow> z < 2 ^ 63 \<Longrightarrow> to_long z = z"
  by (simp add: to_long_def wrap_def)

lemma to_int_id: "- (2 ^ 31) \<le> z \<Longrightarrow> z < 2 ^ 31 \<Longrightarrow> to_int z = z"
  by (simp add: to_int_def wrap_def)

lemma tdiv_nonneg: "0 \<le> a \<Longrightarrow> 0 < b \<Longrightarrow> tdiv a b = a div b"
  by (cases "a = 0") (simp_all add: tdiv_def)

section \<open>Properties of guessNumber\<close>

lemma midpoint_exact:
  assumes "1 \<le> left" "left \<le> right" "right \<le> INT_MAX"
  shows "midpoint left right = (left + right + 1) div 2"
proof -
  have r: "right < 2 ^ 31" using assms by (simp add: INT_MAX_def)
  have s1: "to_long (left + right) = left + right"
    using assms r by (intro to_long_id) simp_all
  have s2: "to_long (left + right + 1) = left + right + 1"
    using assms r by (intro to_long_id) simp_all
  have d: "tdiv (left + right + 1) 2 = (left + right + 1) div 2"
    using assms by (intro tdiv_nonneg) simp_all
  have s3: "to_long ((left + right + 1) div 2) = (left + right + 1) div 2"
    using assms r by (intro to_long_id) simp_all
  show ?thesis by (simp add: midpoint_def s1 s2 d s3)
qed

lemma mid_bounds:
  fixes left right :: int
  assumes "left \<le> right"
  shows "left \<le> (left + right + 1) div 2" "(left + right + 1) div 2 \<le> right"
  using assms by linarith+

lemma probe_ok_ask:
  assumes "1 \<le> left" "left \<le> s" "s \<le> right" "right \<le> n" "n \<le> INT_MAX"
  shows "probe_ok s n (ask left right (midpoint left right))"
proof -
  have m: "midpoint left right = (left + right + 1) div 2"
    using assms by (intro midpoint_exact) simp_all
  have "to_int ((left + right + 1) div 2) = (left + right + 1) div 2"
    using assms by (intro to_int_id) (simp_all add: INT_MAX_def)
  moreover have "left \<le> right" using assms by simp
  ultimately show ?thesis using assms mid_bounds [of left right]
    by (simp add: probe_ok_def ask_def m)
qed

lemma guess_loop_run:
  assumes "1 \<le> left" "left \<le> s" "s \<le> right" "right \<le> n" "n \<le> INT_MAX"
    and "c = midpoint left right" and "g = guess s (to_int c)"
  shows "\<exists>ps. guess_loop s left right c g calls = Some (s, calls @ ps) \<and>
              (\<forall>p\<in>set ps. probe_ok s n p) \<and> 2 ^ length ps \<le> right - left + 1"
  using assms
proof (induction "nat (right - left)" arbitrary: left right c g calls rule: less_induct)
  case less
  have c: "c = (left + right + 1) div 2"
    using less.prems by (simp add: midpoint_exact)
  have ci: "to_int c = c"
    unfolding c using less.prems by (intro to_int_id) (simp_all add: INT_MAX_def)
  have g: "g = guess s c" using less.prems ci by simp
  have lr: "left \<le> right" using less.prems by simp
  note mb = mid_bounds [OF lr, folded c]
  consider (hi) "s > c" | (lo) "s < c" | (eq) "s = c" by linarith
  then show ?case
  proof cases
    case eq
    then have "g = 0" by (simp add: g guess_def)
    then have "guess_loop s left right c g calls = Some (s, calls @ [])"
      by (simp add: guess_loop.simps ci eq)
    moreover have "(2::int) ^ length ([]::probe list) \<le> right - left + 1"
      using less.prems by simp
    ultimately show ?thesis by (intro exI [of _ "[]"]) simp
  next
    case hi
    then have g1: "g = 1" by (simp add: g guess_def)
    define left' where "left' = to_long (c + 1)"
    have l': "left' = c + 1"
      unfolding left'_def c using less.prems by (intro to_long_id) (simp_all add: INT_MAX_def)
    define c' where "c' = midpoint left' right"
    have b: "1 \<le> left'" "left' \<le> s" using hi l' c less.prems by simp_all
    have "nat (right - left') < nat (right - left)"
      using hi l' mb less.prems by linarith
    from less.hyps [OF this b less.prems(3,4,5) c'_def refl, of "calls @ [ask left' right c']"]
    obtain ps where ps: "guess_loop s left' right c' (guess s (to_int c')) (calls @ [ask left' right c'])
         = Some (s, (calls @ [ask left' right c']) @ ps)"
      "\<forall>p\<in>set ps. probe_ok s n p" "2 ^ length ps \<le> right - left' + 1"
      by blast
    have "guess_loop s left right c g calls = Some (s, calls @ (ask left' right c' # ps))"
      by (subst guess_loop.simps) (simp add: g1 Let_def left'_def [symmetric] c'_def [symmetric] ps(1))
    moreover have "probe_ok s n (ask left' right c')"
      unfolding c'_def using b less.prems by (intro probe_ok_ask) simp_all
    moreover have "2 ^ length (ask left' right c' # ps) \<le> right - left + 1"
      using ps(3) l' c by simp
    ultimately show ?thesis using ps(2) by (intro exI [of _ "ask left' right c' # ps"]) simp
  next
    case lo
    then have g1: "g = - 1" "g \<noteq> 1" "g \<noteq> 0" by (simp_all add: g guess_def)
    define right' where "right' = to_long (c - 1)"
    have r': "right' = c - 1"
      unfolding right'_def c using less.prems by (intro to_long_id) (simp_all add: INT_MAX_def)
    define c' where "c' = midpoint left right'"
    have b: "s \<le> right'" "right' \<le> n" using lo r' c less.prems by simp_all
    have "nat (right' - left) < nat (right - left)"
      using lo r' mb less.prems by linarith
    from less.hyps [OF this less.prems(1,2) b less.prems(5) c'_def refl, of "calls @ [ask left right' c']"]
    obtain ps where ps: "guess_loop s left right' c' (guess s (to_int c')) (calls @ [ask left right' c'])
         = Some (s, (calls @ [ask left right' c']) @ ps)"
      "\<forall>p\<in>set ps. probe_ok s n p" "2 ^ length ps \<le> right' - left + 1"
      by blast
    have "guess_loop s left right c g calls = Some (s, calls @ (ask left right' c' # ps))"
      by (subst guess_loop.simps) (simp add: g1 Let_def right'_def [symmetric] c'_def [symmetric] ps(1))
    moreover have "probe_ok s n (ask left right' c')"
      unfolding c'_def using b less.prems by (intro probe_ok_ask) simp_all
    moreover have "2 ^ length (ask left right' c' # ps) \<le> right - left + 1"
      using ps(3) r' c by simp
    ultimately show ?thesis using ps(2) by (intro exI [of _ "ask left right' c' # ps"]) simp
  qed
qed

lemma guessNumber_run:
  assumes "1 \<le> n" "n \<le> INT_MAX" "1 \<le> s" "s \<le> n"
  shows "\<exists>ps. guessNumber s n = Some (s, ps) \<and> (\<forall>p\<in>set ps. probe_ok s n p) \<and>
              ps \<noteq> [] \<and> hd ps = ask 1 n (midpoint 1 n) \<and> 2 ^ (length ps - 1) \<le> n"
proof -
  have n: "to_long n = n"
    using assms by (intro to_long_id) (simp_all add: INT_MAX_def)
  define c where "c = midpoint 1 n"
  from guess_loop_run [OF _ assms(3,4) order_refl assms(2) c_def refl, of "[ask 1 n c]"]
  obtain ps where ps: "guess_loop s 1 n c (guess s (to_int c)) [ask 1 n c] = Some (s, [ask 1 n c] @ ps)"
    "\<forall>p\<in>set ps. probe_ok s n p" "2 ^ length ps \<le> n - 1 + 1"
    by auto
  have "guessNumber s n = Some (s, ask 1 n c # ps)"
    using ps(1) by (simp add: guessNumber_def n Let_def c_def [symmetric])
  moreover have "probe_ok s n (ask 1 n c)"
    unfolding c_def using assms by (intro probe_ok_ask) simp_all
  ultimately show ?thesis using ps(2,3) by (intro exI [of _ "ask 1 n c # ps"]) (simp add: c_def)
qed

text \<open>
  Claim C3. For every \<open>n\<close> with \<open>1 \<le> n \<le> 2\<^sup>3\<^sup>1 - 1\<close> and every secret \<open>s\<close> in \<open>[1, n]\<close>,
  the run of \<^verbatim>\<open>guessNumber(n)\<close> against the oracle for \<open>s\<close> returns, and the value it
  returns is \<open>s\<close>.
\<close>

theorem guessNumber_returns_secret:
  assumes "1 \<le> n" "n \<le> INT_MAX" "1 \<le> s" "s \<le> n"
  shows "map_option fst (guessNumber s n) = Some s"
  using guessNumber_run [OF assms] by auto

text \<open>The theorem at \<open>n = 10\<close>, \<open>s = 7\<close>.\<close>

theorem guessNumber_returns_secret_witness:
  "(1::int) \<le> 10 \<and> (10::int) \<le> INT_MAX \<and> (1::int) \<le> 7 \<and> (7::int) \<le> 10 \<and>
   map_option fst (guessNumber 7 10) = Some 7"
  using guessNumber_returns_secret [of 10 7] by (simp add: INT_MAX_def)

text \<open>
  Claim C4. For every \<open>n\<close> with \<open>1 \<le> n \<le> 2\<^sup>3\<^sup>1 - 1\<close> and every secret \<open>s\<close> in \<open>[1, n]\<close>,
  the run of \<^verbatim>\<open>guessNumber(n)\<close> terminates and invokes the oracle at most
  \<open>\<lceil>log\<^sub>2 n\<rceil> + 1\<close> times.
\<close>

theorem guessNumber_oracle_calls:
  assumes "1 \<le> n" "n \<le> INT_MAX" "1 \<le> s" "s \<le> n"
  shows "\<exists>r calls. guessNumber s n = Some (r, calls) \<and>
           int (length calls) \<le> \<lceil>log 2 (real_of_int n)\<rceil> + 1"
proof -
  from guessNumber_run [OF assms] obtain ps where
    ps: "guessNumber s n = Some (s, ps)" "ps \<noteq> []" "2 ^ (length ps - 1) \<le> n"
    by blast
  define k where "k = length ps - 1"
  have len: "length ps = Suc k"
    using ps(2) by (cases ps) (simp_all add: k_def)
  have "real_of_int (2 ^ k) \<le> real_of_int n"
    using ps(3) unfolding k_def by (rule of_int_le_iff [THEN iffD2])
  then have "(2::real) ^ k \<le> real_of_int n"
    by simp
  then have "real k \<le> log 2 (real_of_int n)"
    by (rule le_log_of_power) simp
  also have "\<dots> \<le> real_of_int \<lceil>log 2 (real_of_int n)\<rceil>"
    by (rule le_of_int_ceiling)
  finally have "real_of_int (int k) \<le> real_of_int \<lceil>log 2 (real_of_int n)\<rceil>"
    by simp
  then have "int k \<le> \<lceil>log 2 (real_of_int n)\<rceil>"
    by (rule of_int_le_iff [THEN iffD1])
  then have "int (length ps) \<le> \<lceil>log 2 (real_of_int n)\<rceil> + 1"
    by (simp add: len)
  with ps(1) show ?thesis by blast
qed

text \<open>The run for \<open>n = 8\<close>, \<open>s = 1\<close> asks the oracle four times, which is the bound.\<close>

lemma guessNumber_1_8:
  "guessNumber 1 8 = Some (1, [ask 1 8 5, ask 1 4 3, ask 1 2 2, ask 1 1 1])"
  by code_simp

theorem guessNumber_oracle_calls_witness:
  "(1::int) \<le> 8 \<and> (8::int) \<le> INT_MAX \<and> (1::int) \<le> 1 \<and> (1::int) \<le> 8 \<and>
   (\<exists>r calls. guessNumber 1 8 = Some (r, calls) \<and> length calls = 4 \<and>
      int (length calls) \<le> \<lceil>log 2 (real_of_int 8)\<rceil> + 1)"
proof -
  have l: "\<lceil>log 2 (real_of_int 8)\<rceil> = 3"
  proof -
    have "log 2 (real_of_int 8) = log 2 (2 ^ 3)" by simp
    also have "\<dots> = 3" by (subst log_nat_power) simp_all
    finally show ?thesis by simp
  qed
  have h: "(1::int) \<le> 8" "(8::int) \<le> INT_MAX" "(1::int) \<le> 1" by (simp_all add: INT_MAX_def)
  from guessNumber_oracle_calls [OF h(1,2,3,1)] show ?thesis
    unfolding guessNumber_1_8 l using h by simp
qed

text \<open>
  Claim C10. For every \<open>n\<close> with \<open>1 \<le> n \<le> 2\<^sup>3\<^sup>1 - 1\<close> and every secret \<open>s\<close> in \<open>[1, n]\<close>,
  every invocation of the oracle in the run of \<^verbatim>\<open>guessNumber(n)\<close> has its argument in
  \<open>[1, n]\<close>: at that moment \<open>1 \<le> left \<le> c \<le> right \<le> n\<close> and \<open>left \<le> s \<le> right\<close>.
\<close>

theorem guessNumber_probes_in_range:
  assumes "1 \<le> n" "n \<le> INT_MAX" "1 \<le> s" "s \<le> n"
  shows "\<exists>r calls. guessNumber s n = Some (r, calls) \<and> calls \<noteq> [] \<and>
           (\<forall>p\<in>set calls. 1 \<le> p_arg p \<and> p_arg p \<le> n \<and> p_arg p = p_c p \<and>
              1 \<le> p_left p \<and> p_left p \<le> p_c p \<and> p_c p \<le> p_right p \<and> p_right p \<le> n \<and>
              p_left p \<le> s \<and> s \<le> p_right p)"
proof -
  from guessNumber_run [OF assms] obtain ps where
    ps: "guessNumber s n = Some (s, ps)" "ps \<noteq> []" "\<forall>p\<in>set ps. probe_ok s n p"
    by blast
  have "1 \<le> p_arg p \<and> p_arg p \<le> n \<and> p_arg p = p_c p \<and>
              1 \<le> p_left p \<and> p_left p \<le> p_c p \<and> p_c p \<le> p_right p \<and> p_right p \<le> n \<and>
              p_left p \<le> s \<and> s \<le> p_right p" if "p \<in> set ps" for p
    using ps(3) that unfolding probe_ok_def by force
  then show ?thesis using ps(1,2) by blast
qed

text \<open>The run for \<open>n = 10\<close>, \<open>s = 3\<close>: two invocations, with arguments 6 and 3.\<close>

lemma guessNumber_3_10:
  "guessNumber 3 10 = Some (3, [ask 1 10 6, ask 1 5 3])"
  by code_simp

theorem guessNumber_probes_in_range_witness:
  "(1::int) \<le> 10 \<and> (10::int) \<le> INT_MAX \<and> (1::int) \<le> 3 \<and> (3::int) \<le> 10 \<and>
   guessNumber 3 10 = Some (3, [ask 1 10 6, ask 1 5 3]) \<and>
   list_all (\<lambda>p. 1 \<le> p_arg p \<and> p_arg p \<le> 10 \<and> p_left p \<le> 3 \<and> 3 \<le> p_right p)
     [ask 1 10 6, ask 1 5 3]"
  using guessNumber_probes_in_range [of 10 3]
  by (simp add: INT_MAX_def guessNumber_3_10)

section \<open>Rounding to double\<close>

lemma binade_bounds:
  "0 < x \<Longrightarrow> 2 powi binade x \<le> x \<and> x < 2 powi (binade x + 1)"
proof (induction x rule: binade.induct)
  case (1 x)
  show ?case
  proof (cases "2 \<le> x")
    case True
    then have b: "binade x = binade (x / 2) + 1"
      using "1.prems" by (subst binade.simps) simp
    have "2 powi binade (x / 2) \<le> x / 2 \<and> x / 2 < 2 powi (binade (x / 2) + 1)"
      using "1.IH"(1) True "1.prems" by simp
    then show ?thesis
      unfolding b by (simp add: power_int_add)
  next
    case False
    show ?thesis
    proof (cases "x < 1")
      case True
      then have b: "binade x = binade (2 * x) - 1"
        using "1.prems" False by (subst binade.simps) simp
      have "2 powi binade (2 * x) \<le> 2 * x \<and> 2 * x < 2 powi (binade (2 * x) + 1)"
        using "1.IH"(2) True False "1.prems" by simp
      then show ?thesis
        unfolding b by (simp add: power_int_add power_int_diff)
    next
      case F2: False
      then have b: "binade x = 0"
        using "1.prems" False by (subst binade.simps) simp
      show ?thesis unfolding b using False F2 by simp
    qed
  qed
qed

lemma pow2_less_D:
  assumes "(2::real) powi a < 2 powi b"
  shows "a < b"
proof (rule ccontr)
  assume "\<not> a < b"
  then have "(2::real) powi b \<le> 2 powi a"
    by (intro power_int_increasing) simp_all
  with assms show False by simp
qed

lemma pow2_mono: "a \<le> b \<Longrightarrow> (2::real) powi a \<le> 2 powi b"
  by (rule power_int_increasing) simp_all

lemma binade_unique:
  assumes "2 powi j \<le> x" "x < 2 powi (j + 1)"
  shows "binade x = j"
proof -
  have x: "0 < x"
    using assms(1) zero_less_power_int [of "2::real" j] by linarith
  note b = binade_bounds [OF x]
  have "(2::real) powi j < 2 powi (binade x + 1)"
    using assms(1) b by linarith
  then have "j < binade x + 1"
    by (rule pow2_less_D)
  moreover have "(2::real) powi binade x < 2 powi (j + 1)"
    using assms(2) b by linarith
  then have "binade x < j + 1"
    by (rule pow2_less_D)
  ultimately show ?thesis by simp
qed

lemma round_even_of_int: "round_even (of_int k) = k"
  by (simp add: round_even_def)

lemma round_even_range: "\<lfloor>y\<rfloor> \<le> round_even y \<and> round_even y \<le> \<lfloor>y\<rfloor> + 1"
  by (simp add: round_even_def Let_def)

lemma round_even_error: "\<bar>of_int (round_even y) - y\<bar> \<le> 1 / 2"
proof -
  have "of_int \<lfloor>y\<rfloor> \<le> y" "y < of_int \<lfloor>y\<rfloor> + 1" by linarith+
  then show ?thesis
    by (auto simp: round_even_def Let_def)
qed

lemma round_even_mono:
  assumes "x \<le> y"
  shows "round_even x \<le> round_even y"
proof (cases "\<lfloor>x\<rfloor> = \<lfloor>y\<rfloor>")
  case True
  then show ?thesis
    using assms by (auto simp: round_even_def Let_def)
next
  case False
  then have "\<lfloor>x\<rfloor> + 1 \<le> \<lfloor>y\<rfloor>"
    using floor_mono [OF assms] by linarith
  then show ?thesis
    using round_even_range [of x] round_even_range [of y] by linarith
qed

lemma ulp_exp_ge: "- 1074 \<le> ulp_exp x" "binade \<bar>x\<bar> - 52 \<le> ulp_exp x"
  by (simp_all add: ulp_exp_def)

lemma fl_0: "fl 0 = 0"
  by (simp add: fl_def round_even_def)

lemma fl_nonneg:
  assumes "0 \<le> x"
  shows "0 \<le> fl x"
proof -
  have "0 \<le> x / 2 powi ulp_exp x" using assms by simp
  then have "round_even 0 \<le> round_even (x / 2 powi ulp_exp x)"
    by (rule round_even_mono)
  then have "0 \<le> round_even (x / 2 powi ulp_exp x)"
    using round_even_of_int [of 0] by simp
  then show ?thesis by (simp add: fl_def)
qed

lemma pow2_split: "(2::real) powi (a + b) = 2 powi a * 2 powi b"
  by (rule power_int_add) simp

lemma pow2_diff: "(2::real) powi (a - b) = 2 powi a / 2 powi b"
  by (rule power_int_diff) simp

lemma binade_mono:
  assumes "0 < x" "x \<le> y"
  shows "binade x \<le> binade y"
proof -
  have "2 powi binade x \<le> x" using binade_bounds [OF assms(1)] by simp
  moreover have "y < 2 powi (binade y + 1)"
    using binade_bounds [of y] assms by simp
  ultimately have "(2::real) powi binade x < 2 powi (binade y + 1)"
    using assms(2) by linarith
  then have "binade x < binade y + 1" by (rule pow2_less_D)
  then show ?thesis by simp
qed

lemma ulp_exp_mono:
  assumes "0 < x" "x \<le> y"
  shows "ulp_exp x \<le> ulp_exp y"
  using binade_mono [OF assms] assms by (simp add: ulp_exp_def)

text \<open>A number with a mantissa below \<open>2\<^sup>5\<^sup>3\<close> and an exponent in range is not changed.\<close>

lemma fl_exact:
  assumes "x = of_int m * 2 powi e" "0 \<le> m" "m < 2 ^ 53" "- 1074 \<le> e"
  shows "fl x = x"
proof (cases "m = 0")
  case True
  then show ?thesis using assms(1) by (simp add: fl_0)
next
  case False
  then have m: "0 < m" using assms(2) by simp
  have x: "0 < x" unfolding assms(1) using m by simp
  define u where "u = ulp_exp x"
  have "2 powi binade x \<le> x" using binade_bounds [OF x] by simp
  also have "x < 2 ^ 53 * 2 powi e"
    unfolding assms(1) using assms(3) by simp
  also have "\<dots> = 2 powi (53 + e)" by (simp add: pow2_split)
  finally have "binade x < 53 + e" by (rule pow2_less_D)
  then have ue: "u \<le> e"
    using assms(4) x by (simp add: u_def ulp_exp_def)
  define n where "n = nat (e - u)"
  have e: "e = u + int n" using ue by (simp add: n_def)
  have "x / 2 powi u = of_int m * 2 ^ n"
    unfolding assms(1) e by (simp add: pow2_split)
  also have "\<dots> = of_int (m * 2 ^ n)" by simp
  finally have "round_even (x / 2 powi u) = m * 2 ^ n"
    by (simp only: round_even_of_int)
  then have "fl x = of_int (m * 2 ^ n) * 2 powi u"
    by (simp add: fl_def u_def)
  also have "\<dots> = x"
    unfolding assms(1) e by (simp add: pow2_split)
  finally show ?thesis .
qed

lemma fl_of_int:
  assumes "0 \<le> k" "k < 2 ^ 53"
  shows "fl (of_int k) = of_int k"
  by (rule fl_exact [of _ k 0]) (use assms in simp_all)

lemma fl_ulp_error: "\<bar>fl x - x\<bar> \<le> 2 powi ulp_exp x / 2"
proof -
  define P :: real where "P = 2 powi ulp_exp x"
  have P: "0 < P" by (simp add: P_def)
  have "fl x - x = (of_int (round_even (x / P)) - x / P) * P"
    using P by (simp add: fl_def P_def field_simps)
  then have "\<bar>fl x - x\<bar> = \<bar>of_int (round_even (x / P)) - x / P\<bar> * P"
    using P by (simp add: abs_mult)
  also have "\<dots> \<le> 1 / 2 * P"
    using P round_even_error [of "x / P"] by (intro mult_right_mono) simp_all
  finally show ?thesis by (simp add: P_def)
qed

lemma fl_rel_error:
  assumes "2 powi (- 1022) \<le> x"
  shows "\<bar>fl x - x\<bar> \<le> x * 2 powi (- 53)"
proof -
  have x: "0 < x"
    using assms zero_less_power_int [of "2::real" "- 1022"] by linarith
  have "(2::real) powi (- 1022) < 2 powi (binade x + 1)"
    using assms binade_bounds [OF x] by linarith
  then have "- 1022 < binade x + 1" by (rule pow2_less_D)
  then have u: "ulp_exp x = binade x - 52"
    using x by (simp add: ulp_exp_def)
  have "(2::real) powi ulp_exp x / 2 = 2 powi (binade x - 52 - 1)"
    unfolding u by (subst pow2_diff [of "binade x - 52" 1]) simp
  also have "\<dots> = 2 powi (binade x + (- 53))" by simp
  also have "\<dots> = 2 powi binade x * 2 powi (- 53)" by (rule pow2_split)
  also have "\<dots> \<le> x * 2 powi (- 53)"
    using binade_bounds [OF x] by (intro mult_right_mono) simp_all
  finally show ?thesis using fl_ulp_error [of x] by linarith
qed

lemma fl_upper:
  assumes "0 < x"
  shows "fl x \<le> 2 powi (ulp_exp x + 53)"
proof -
  define u where "u = ulp_exp x"
  have "x < 2 powi (binade x + 1)" using binade_bounds [OF assms] by simp
  also have "\<dots> \<le> 2 powi (u + 53)"
    using ulp_exp_ge(2) [of x] assms by (intro pow2_mono) (simp add: u_def)
  finally have "x / 2 powi u \<le> 2 ^ 53"
    by (simp add: pow2_split field_simps)
  then have "round_even (x / 2 powi u) \<le> round_even (of_int (2 ^ 53))"
    by (intro round_even_mono) simp
  then have "round_even (x / 2 powi u) \<le> 2 ^ 53"
    by (simp only: round_even_of_int)
  then have "real_of_int (round_even (x / 2 powi u)) \<le> 2 ^ 53"
    by (metis of_int_le_iff of_int_numeral of_int_power)
  then have "fl x \<le> 2 ^ 53 * 2 powi u"
    unfolding fl_def u_def [symmetric] by (intro mult_right_mono) simp_all
  then show ?thesis by (simp add: u_def pow2_split mult.commute)
qed

lemma fl_lower:
  assumes "0 < x" "ulp_exp x = binade x - 52"
  shows "2 powi binade x \<le> fl x"
proof -
  define u where "u = ulp_exp x"
  have b: "binade x = u + 52" using assms(2) by (simp add: u_def)
  have "2 powi (u + 52) \<le> x" using binade_bounds [OF assms(1)] b by simp
  then have "2 ^ 52 \<le> x / 2 powi u"
    by (simp add: pow2_split field_simps)
  then have "round_even (of_int (2 ^ 52)) \<le> round_even (x / 2 powi u)"
    by (intro round_even_mono) simp
  then have "2 ^ 52 \<le> round_even (x / 2 powi u)"
    by (simp only: round_even_of_int)
  then have "2 ^ 52 \<le> real_of_int (round_even (x / 2 powi u))"
    by (metis of_int_le_iff of_int_numeral of_int_power)
  then have "2 ^ 52 * 2 powi u \<le> fl x"
    unfolding fl_def u_def [symmetric] by (intro mult_right_mono) simp_all
  then show ?thesis by (simp add: b pow2_split mult.commute)
qed

lemma fl_mono:
  assumes "0 \<le> x" "x \<le> y"
  shows "fl x \<le> fl y"
proof (cases "x = 0")
  case True
  then show ?thesis using fl_nonneg [of y] assms by (simp add: fl_0)
next
  case False
  then have x: "0 < x" and y: "0 < y" using assms by simp_all
  have le: "ulp_exp x \<le> ulp_exp y" using ulp_exp_mono [OF x assms(2)] .
  show ?thesis
  proof (cases "ulp_exp x = ulp_exp y")
    case True
    have "x / 2 powi ulp_exp y \<le> y / 2 powi ulp_exp y"
      using assms(2) by (simp add: divide_right_mono)
    then have "round_even (x / 2 powi ulp_exp y) \<le> round_even (y / 2 powi ulp_exp y)"
      by (rule round_even_mono)
    then show ?thesis
      unfolding fl_def True by (intro mult_right_mono) simp_all
  next
    case False
    then have lt: "ulp_exp x + 1 \<le> ulp_exp y" using le by simp
    then have "- 1074 < ulp_exp y" using ulp_exp_ge(1) [of x] by linarith
    then have uy: "ulp_exp y = binade y - 52"
      using y by (simp add: ulp_exp_def split: if_splits)
    have "fl x \<le> 2 powi (ulp_exp x + 53)" by (rule fl_upper [OF x])
    also have "\<dots> \<le> 2 powi binade y"
      using lt uy by (intro pow2_mono) simp
    also have "\<dots> \<le> fl y" by (rule fl_lower [OF y uy])
    finally show ?thesis .
  qed
qed

lemma fl_pow2: "fl (2 ^ n) = 2 ^ n"
  by (rule fl_exact [of _ 1 "int n"]) simp_all

lemma DBL_MAX_ge: "2 ^ 64 \<le> DBL_MAX"
proof -
  have "(2::real) ^ 64 \<le> 2 ^ 971" by (rule power_increasing) simp_all
  also have "\<dots> = 1 * 2 ^ 971" by simp
  also have "\<dots> \<le> (2 ^ 53 - 1) * 2 ^ 971" by (rule mult_right_mono) simp_all
  finally show ?thesis by (simp only: DBL_MAX_def)
qed

lemma to_double_Inr:
  assumes "0 \<le> x" "x \<le> 2 ^ 64"
  shows "to_double x = Inr (fl x)"
proof -
  have "fl x \<le> fl (2 ^ 64)" using assms by (rule fl_mono)
  then have "fl x \<le> DBL_MAX" using DBL_MAX_ge by (simp only: fl_pow2)
  moreover have "0 \<le> fl x" using assms(1) by (rule fl_nonneg)
  ultimately show ?thesis by (simp add: to_double_def)
qed

lemma fl_between:
  assumes "of_int lo \<le> x" "x \<le> of_int hi" "0 \<le> lo" "hi < 2 ^ 53"
  shows "of_int lo \<le> fl x" "fl x \<le> of_int hi"
proof -
  have x: "0 \<le> x" using assms(1,3) by (meson of_int_0_le_iff order_trans)
  have "lo \<le> hi" using assms(1,2) by linarith
  then have lo: "lo < 2 ^ 53" and hi: "0 \<le> hi" using assms(3,4) by linarith+
  have "fl (of_int lo) \<le> fl x"
    using assms(1,3) by (intro fl_mono) simp_all
  then show "of_int lo \<le> fl x"
    using fl_of_int [OF assms(3) lo] by simp
  have "fl x \<le> fl (of_int hi)"
    using x assms(2) by (rule fl_mono)
  then show "fl x \<le> of_int hi"
    using fl_of_int [OF hi assms(4)] by simp
qed

lemma mult_pow2_nonneg:
  assumes "0 \<le> y * 2 powi e"
  shows "0 \<le> (y::real)"
proof (rule ccontr)
  assume "\<not> 0 \<le> y"
  then have "y * 2 powi e < 0" by (simp add: mult_neg_pos)
  with assms show False by simp
qed

lemma mult_pow2_pos:
  assumes "0 < y * 2 powi e"
  shows "0 < (y::real)"
proof (rule ccontr)
  assume "\<not> 0 < y"
  then have "y * 2 powi e \<le> 0" by (simp add: mult_nonpos_nonneg)
  with assms show False by simp
qed

lemma fl_is_double:
  assumes "0 \<le> x"
  shows "is_double (fl x)"
proof -
  define u where "u = ulp_exp x"
  define M where "M = round_even (x / 2 powi u)"
  have f: "fl x = of_int M * 2 powi u" by (simp add: fl_def M_def u_def)
  have u: "- 1074 \<le> u" by (simp add: u_def ulp_exp_ge)
  have "0 \<le> fl x" using assms by (rule fl_nonneg)
  then have "0 \<le> real_of_int M * 2 powi u" by (simp only: f)
  then have "0 \<le> real_of_int M" by (rule mult_pow2_nonneg)
  then have M0: "0 \<le> M" by simp
  have M53: "M \<le> 2 ^ 53"
  proof (cases "x = 0")
    case True
    then show ?thesis using round_even_of_int [of 0] by (simp add: M_def)
  next
    case False
    then have x: "0 < x" using assms by simp
    have "real_of_int M * 2 powi u \<le> 2 powi (u + 53)"
      using fl_upper [OF x] by (simp only: f u_def)
    also have "\<dots> = 2 ^ 53 * 2 powi u" by (simp add: pow2_split)
    finally have "real_of_int M \<le> 2 ^ 53" by simp
    then show ?thesis by (metis of_int_le_iff of_int_numeral of_int_power)
  qed
  show ?thesis
  proof (cases "M = 2 ^ 53")
    case True
    have "fl x = of_int (2 ^ 52) * 2 powi (u + 1)"
      unfolding f True by (simp add: pow2_split)
    moreover have "\<bar>2 ^ 52 :: int\<bar> < 2 ^ 53" by simp
    moreover have "- 1074 \<le> u + 1" using u by simp
    ultimately show ?thesis unfolding is_double_def by blast
  next
    case False
    then have "\<bar>M\<bar> < 2 ^ 53" using M0 M53 by simp
    then show ?thesis unfolding is_double_def using f u by blast
  qed
qed

lemma is_double_of_int:
  assumes "\<bar>k\<bar> < 2 ^ 53"
  shows "is_double (of_int k)"
  unfolding is_double_def using assms by (intro exI [of _ k] exI [of _ 0]) simp

text \<open>Subtracting a double from an integer that is at most twice as large is exact.\<close>

lemma fl_int_minus_double:
  assumes a: "is_double a" "0 < a" and j: "0 \<le> j" "j < 2 ^ 53"
    and d: "0 \<le> of_int j - a" "of_int j - a \<le> a"
  shows "fl (of_int j - a) = of_int j - a"
proof -
  from a(1) obtain m e where me: "a = of_int m * 2 powi e" "\<bar>m\<bar> < 2 ^ 53" "- 1074 \<le> e"
    unfolding is_double_def by blast
  have "0 < real_of_int m"
    using a(2) unfolding me(1) by (rule mult_pow2_pos)
  then have m0: "0 < m" by simp
  show ?thesis
  proof (cases "0 \<le> e")
    case True
    define k where "k = m * 2 ^ nat e"
    have ak: "a = of_int k"
      unfolding me(1) k_def using True by (simp add: power_int_def)
    have "0 \<le> j - k" using d(1) unfolding ak by linarith
    moreover have "j - k < 2 ^ 53" using j m0 unfolding k_def
      by (smt (verit) mult_pos_pos zero_less_numeral zero_less_power)
    ultimately have "fl (of_int (j - k)) = of_int (j - k)" by (rule fl_of_int)
    then show ?thesis by (simp add: ak)
  next
    case False
    define n where "n = nat (- e)"
    have e: "e = - int n" using False by (simp add: n_def)
    have p: "(2::real) powi e * 2 ^ n = 1"
      unfolding e by (simp add: power_int_minus)
    define M where "M = j * 2 ^ n - m"
    have "real_of_int M * 2 powi e = of_int j * (2 powi e * 2 ^ n) - of_int m * 2 powi e"
      by (simp add: M_def algebra_simps)
    then have dM: "of_int j - a = of_int M * 2 powi e"
      by (simp add: p me(1))
    have "0 \<le> real_of_int M * 2 powi e" using d(1) by (simp only: dM)
    then have "0 \<le> real_of_int M" by (rule mult_pow2_nonneg)
    then have M0: "0 \<le> M" by simp
    have "real_of_int M * 2 powi e \<le> real_of_int m * 2 powi e"
      using d(2) unfolding dM unfolding me(1) .
    then have "real_of_int M \<le> real_of_int m" by simp
    then have "M \<le> m" by simp
    then have M53: "M < 2 ^ 53" using me(2) by simp
    show ?thesis by (rule fl_exact [OF dM M0 M53 me(3)])
  qed
qed

lemma fl_rel:
  assumes "x = 0 \<or> 1 / 2 ^ 40 \<le> x"
  shows "\<bar>fl x - x\<bar> \<le> x / 2 ^ 53"
proof (cases "x = 0")
  case True
  then show ?thesis by (simp add: fl_0)
next
  case False
  then have x: "1 / 2 ^ 40 \<le> x" using assms by simp
  have "(2::real) powi (- 1022) \<le> 2 powi (- 40)" by (rule pow2_mono) simp
  also have "\<dots> = 1 / 2 ^ 40" by (simp add: power_int_minus_divide)
  finally have "2 powi (- 1022) \<le> x" using x by linarith
  then have "\<bar>fl x - x\<bar> \<le> x * 2 powi (- 53)" by (rule fl_rel_error)
  also have "\<dots> = x / 2 ^ 53" by (simp add: power_int_minus_divide)
  finally show ?thesis .
qed

lemma fl_near:
  assumes "x = 0 \<or> 1 / 2 ^ 40 \<le> x" "x \<le> b" "b / 2 ^ 53 \<le> d"
  shows "fl x \<le> x + d" "x - d \<le> fl x"
proof -
  have "\<bar>fl x - x\<bar> \<le> x / 2 ^ 53" using assms(1) by (rule fl_rel)
  moreover have "x / 2 ^ 53 \<le> b / 2 ^ 53" using assms(2) by (rule divide_right_mono) simp
  ultimately have "\<bar>fl x - x\<bar> \<le> d" using assms(3) by linarith
  then show "fl x \<le> x + d" "x - d \<le> fl x" by linarith+
qed

lemma fl_ge_quarter:
  assumes "1 / 4 \<le> x"
  shows "1 / 4 \<le> fl x"
proof -
  have "fl (1 / 4) = 1 / 4"
    by (rule fl_exact [of _ 1 "- 2"]) (simp_all add: power_int_minus_divide)
  moreover have "fl (1 / 4) \<le> fl x" using assms by (intro fl_mono) simp_all
  ultimately show ?thesis by simp
qed

lemma fl_ge_eighth:
  assumes "1 / 8 \<le> x"
  shows "1 / 8 \<le> fl x"
proof -
  have "fl (1 / 8) = 1 / 8"
    by (rule fl_exact [of _ 1 "- 3"]) (simp_all add: power_int_minus_divide)
  moreover have "fl (1 / 8) \<le> fl x" using assms by (intro fl_mono) simp_all
  ultimately show ?thesis by simp
qed

lemma fl_inv_pow2:
  assumes "n \<le> 1074"
  shows "fl (1 / 2 ^ n) = 1 / 2 ^ n"
  by (rule fl_exact [of _ 1 "- int n"]) (use assms in \<open>simp_all add: power_int_minus_divide\<close>)

lemma fl_1: "fl 1 = 1"
  using fl_of_int [of 1] by simp

text \<open>
  Evaluating a rounding on a given number: once its binade is known, \<open>fl\<close> is a
  rounding of a quotient to an integer.
\<close>

lemma fl_eval:
  assumes "2 powi (e + 52) \<le> x" "x < 2 powi (e + 53)" "- 1074 \<le> e"
  shows "fl x = of_int (round_even (x / 2 powi e)) * 2 powi e"
proof -
  have "0 < x" using assms(1) zero_less_power_int [of "2::real" "e + 52"] by linarith
  moreover have "binade x = e + 52"
    using assms(1,2) by (intro binade_unique) (simp_all add: add.commute add.left_commute)
  ultimately have "ulp_exp x = e" using assms(3) by (simp add: ulp_exp_def)
  then show ?thesis by (simp add: fl_def)
qed

lemma fl_exact_ratio:
  assumes "x = of_int m / 2 ^ n" "0 \<le> m" "m < 2 ^ 53" "n \<le> 1074"
  shows "fl x = x"
  by (rule fl_exact [of _ m "- int n"]) (use assms in \<open>simp_all add: power_int_minus field_simps\<close>)

lemma round_even_near:
  assumes "of_int m - 1 / 2 < y" "y < of_int m + 1 / 2"
  shows "round_even y = m"
proof (cases "of_int m \<le> y")
  case True
  then have "\<lfloor>y\<rfloor> = m" using assms(2) by (intro floor_unique) simp_all
  then show ?thesis using assms(2) by (simp add: round_even_def)
next
  case False
  then have "\<lfloor>y\<rfloor> = m - 1" using assms(1) by (intro floor_unique) simp_all
  then show ?thesis using assms(1) by (simp add: round_even_def)
qed

section \<open>Properties of arrangeCoins\<close>

lemma twice_triangle: "k * (k + 1) div 2 * 2 = k * (k + (1::int))"
  by simp

lemma rows_ok_squares:
  assumes "rows_ok n k"
  shows "(2 * k + 1)\<^sup>2 \<le> 8 * n + 1" "8 * n + 1 < (2 * k + 3)\<^sup>2"
proof -
  have "k * (k + 1) div 2 * 2 \<le> n * 2"
    using assms unfolding rows_ok_def by (intro mult_right_mono) simp_all
  then have a: "k * (k + 1) \<le> 2 * n" using twice_triangle [of k] by linarith
  have "(2 * k + 1)\<^sup>2 = 4 * (k * (k + 1)) + 1"
    by (simp add: power2_eq_square algebra_simps)
  then show "(2 * k + 1)\<^sup>2 \<le> 8 * n + 1" using a by simp
  have "n + 1 \<le> (k + 1) * (k + 2) div 2"
    using assms unfolding rows_ok_def by simp
  then have "(n + 1) * 2 \<le> (k + 1) * (k + 1 + 1) div 2 * 2"
    by (intro mult_right_mono) (simp_all add: add.assoc)
  then have b: "2 * n + 2 \<le> (k + 1) * (k + 2)"
    unfolding twice_triangle [of "k + 1"] by (simp add: add.assoc)
  have "(2 * k + 3)\<^sup>2 = 4 * ((k + 1) * (k + 2)) + 1"
    by (simp add: power2_eq_square algebra_simps)
  then show "8 * n + 1 < (2 * k + 3)\<^sup>2" using b by simp
qed

lemma rows_ok_small:
  assumes "rows_ok n k" "n \<le> INT_MAX"
  shows "k < 2 ^ 16"
proof (rule ccontr)
  assume "\<not> k < 2 ^ 16"
  then have k: "2 ^ 16 \<le> k" by simp
  then have "2 ^ 16 * 2 ^ 16 \<le> k * k" by (intro mult_mono) simp_all
  moreover have "k * k \<le> k * (k + 1)" using k by (intro mult_left_mono) simp_all
  moreover have "k * (k + 1) div 2 * 2 \<le> n * 2"
    using assms unfolding rows_ok_def by (intro mult_right_mono) simp_all
  then have "k * (k + 1) \<le> 2 * n" using twice_triangle [of k] by linarith
  ultimately show False using assms(2) by (simp add: INT_MAX_def)
qed

lemma triangle_mono:
  fixes a b :: int
  assumes "0 \<le> a" "a \<le> b"
  shows "a * (a + 1) div 2 \<le> b * (b + 1) div 2"
proof -
  have "a * (a + 1) \<le> b * (b + 1)"
    using assms by (intro mult_mono) simp_all
  then show ?thesis by (rule zdiv_mono1) simp
qed

lemma rows_exists:
  assumes "0 \<le> n"
  shows "\<exists>k. rows_ok n k"
  using assms
proof (induction n rule: int_ge_induct)
  case base
  have "rows_ok 0 0" by (simp add: rows_ok_def)
  then show ?case ..
next
  case (step n)
  then obtain k where k: "rows_ok n k" by blast
  show ?case
  proof (cases "n + 1 < (k + 1) * (k + 2) div 2")
    case True
    then have "rows_ok (n + 1) k" using k by (simp add: rows_ok_def)
    then show ?thesis ..
  next
    case False
    then have eq: "(k + 1) * (k + 2) div 2 = n + 1"
      using k by (simp add: rows_ok_def)
    have e1: "(k + 1) * (k + 2) div 2 * 2 = (k + 1) * (k + 2)" by simp
    have e2: "(k + 2) * (k + 3) div 2 * 2 = (k + 2) * (k + 3)" by simp
    have "(k + 1) * (k + 2) < (k + 2) * (k + 3)"
      using k by (simp add: rows_ok_def algebra_simps)
    then have "(k + 1) * (k + 2) div 2 < (k + 2) * (k + 3) div 2"
      using e1 e2 by linarith
    then have "rows_ok (n + 1) (k + 1)"
      using k eq by (simp add: rows_ok_def add.assoc)
    then show ?thesis ..
  qed
qed

lemma rows_unique:
  assumes "rows_ok n k" "rows_ok n k'"
  shows "k = k'"
proof (rule ccontr)
  assume ne: "k \<noteq> k'"
  have *: False if a: "rows_ok n a" and b: "rows_ok n b" and lt: "a < b" for a b
  proof -
    have "(a + 1) * (a + 1 + 1) div 2 \<le> b * (b + 1) div 2"
      using a lt by (intro triangle_mono) (simp_all add: rows_ok_def)
    then show False using a b by (simp add: rows_ok_def add.assoc)
  qed
  from ne consider "k < k'" | "k' < k" by linarith
  then show False using * assms by cases blast+
qed

lemma estimate_range:
  assumes n: "0 \<le> n" "n \<le> INT_MAX" and k: "rows_ok n k"
  shows "\<exists>i. estimate n = Inr i \<and> k + 1 \<le> i \<and> i \<le> k + 2"
proof -
  have k0: "0 \<le> k" using k by (simp add: rows_ok_def)
  have k16: "k < 2 ^ 16" using k n(2) by (rule rows_ok_small)
  define v where "v = 8 * n + 1"
  have v: "1 \<le> v" "v \<le> 2 ^ 34" using n by (simp_all add: v_def INT_MAX_def)
  have "to_long (8 * n) = 8 * n"
    using n by (intro to_long_id) (simp_all add: INT_MAX_def)
  moreover have "to_long (8 * n + 1) = 8 * n + 1"
    using n by (intro to_long_id) (simp_all add: INT_MAX_def)
  ultimately have disc: "discriminant n = v" by (simp add: discriminant_def v_def)
  have "fl (of_int v) = of_int v" using v by (intro fl_of_int) simp_all
  moreover have "to_double (of_int v) = Inr (fl (of_int v))"
    using v by (intro to_double_Inr) simp_all
  ultimately have s1: "d_of_int v = Inr (of_int v)" by (simp add: d_of_int_def)
  define r where "r = fl (sqrt (of_int v))"
  have sq: "of_int (2 * k + 1) \<le> sqrt (of_int v)" "sqrt (of_int v) \<le> of_int (2 * k + 3)"
  proof -
    have "(of_int (2 * k + 1))\<^sup>2 \<le> (of_int v :: real)"
      using rows_ok_squares(1) [OF k] unfolding v_def
      by (metis of_int_le_iff of_int_power)
    then show "of_int (2 * k + 1) \<le> sqrt (of_int v)" by (rule real_le_rsqrt)
    have "(of_int v :: real) \<le> (of_int (2 * k + 3))\<^sup>2"
      using rows_ok_squares(2) [OF k] unfolding v_def
      by (metis less_imp_le of_int_le_iff of_int_power)
    moreover have "(0::real) \<le> of_int (2 * k + 3)" using k0 by simp
    ultimately show "sqrt (of_int v) \<le> of_int (2 * k + 3)" by (intro real_le_lsqrt)
  qed
  have r: "of_int (2 * k + 1) \<le> r" "r \<le> of_int (2 * k + 3)"
    unfolding r_def using sq k0 k16 by (intro fl_between [of "2 * k + 1" _ "2 * k + 3"]; simp)+
  have "real_of_int (2 * k + 3) \<le> 2 ^ 64"
    using k16 by simp
  then have le64: "sqrt (of_int v) \<le> 2 ^ 64"
    using sq(2) by (rule order_trans [rotated])
  have nn: "0 \<le> sqrt (real_of_int v)" using v by simp
  have "to_double (sqrt (of_int v)) = Inr r"
    unfolding r_def using nn le64 by (rule to_double_Inr)
  then have s2: "dsqrt (of_int v) = Inr r" using v by (simp add: dsqrt_def)
  define t where "t = fl (r - 1)"
  have t: "of_int (2 * k) \<le> t" "t \<le> of_int (2 * k + 2)"
    unfolding t_def using r k0 k16 by (intro fl_between [of "2 * k" _ "2 * k + 2"]; simp)+
  have "to_double (r - 1) = Inr t"
    unfolding t_def using r k0 k16 by (intro to_double_Inr) simp_all
  then have s3: "dsub r 1 = Inr t" by (simp add: dsub_def)
  define h where "h = fl (t / 2)"
  have h: "of_int k \<le> h" "h \<le> of_int (k + 1)"
    unfolding h_def using t k0 k16 by (intro fl_between [of k _ "k + 1"]; simp)+
  have "to_double (t / 2) = Inr h"
    unfolding h_def using t k0 k16 by (intro to_double_Inr) simp_all
  then have s4: "ddiv t 2 = Inr h" by (simp add: ddiv_def)
  define j where "j = fl (h + 1)"
  have j: "of_int (k + 1) \<le> j" "j \<le> of_int (k + 2)"
    unfolding j_def using h k0 k16 by (intro fl_between [of "k + 1" _ "k + 2"]; simp)+
  have "to_double (h + 1) = Inr j"
    unfolding j_def using h k0 k16 by (intro to_double_Inr) simp_all
  then have s5: "dadd h 1 = Inr j" by (simp add: dadd_def)
  have j0: "0 \<le> j" using j(1) k0 by linarith
  have tr: "k + 1 \<le> trunc j" "trunc j \<le> k + 2"
    using j j0 by (simp_all add: trunc_def le_floor_iff floor_le_iff)
  then have s6: "d_to_long j = Inr (trunc j)"
    using k0 k16 by (simp add: d_to_long_def)
  have "estimate n = Inr (trunc j)"
    by (simp add: estimate_def disc s1 s2 s3 s4 s5 s6)
  then show ?thesis using tr by blast
qed

lemma overshoots_iff:
  assumes n: "0 \<le> n" "n \<le> INT_MAX" and k: "rows_ok n k" and i: "0 \<le> i" "i \<le> 2 ^ 17"
  shows "overshoots n i \<longleftrightarrow> k < i"
proof -
  have a: "to_long (i + 1) = i + 1"
    using i by (intro to_long_id) simp_all
  have "i * (i + 1) \<le> 2 ^ 17 * (2 ^ 17 + 1)"
    using i by (intro mult_mono) simp_all
  then have p: "i * (i + 1) < 2 ^ 63" by simp
  have p0: "0 \<le> i * (i + 1)" using i by simp
  have b: "to_long (i * (i + 1)) = i * (i + 1)"
    using p p0 by (intro to_long_id) simp_all
  have c: "tdiv (i * (i + 1)) 2 = i * (i + 1) div 2"
    using p0 by (intro tdiv_nonneg) simp_all
  have "0 \<le> i * (i + 1) div 2" "i * (i + 1) div 2 < 2 ^ 63"
    using p p0 by simp_all
  then have d: "to_long (i * (i + 1) div 2) = i * (i + 1) div 2"
    by (intro to_long_id) simp_all
  have e: "to_long n = n"
    using n by (intro to_long_id) (simp_all add: INT_MAX_def)
  have o: "overshoots n i \<longleftrightarrow> n < i * (i + 1) div 2"
    by (simp add: overshoots_def a b c d e)
  show ?thesis
  proof (cases "k < i")
    case True
    have "(k + 1) * (k + 1 + 1) div 2 \<le> i * (i + 1) div 2"
      using True k by (intro triangle_mono) (simp_all add: rows_ok_def)
    then have "n < i * (i + 1) div 2"
      using k by (simp add: rows_ok_def add.assoc)
    then show ?thesis using True o by simp
  next
    case False
    have "i * (i + 1) div 2 \<le> k * (k + 1) div 2"
      using False i by (intro triangle_mono) simp_all
    then have "\<not> n < i * (i + 1) div 2"
      using k by (simp add: rows_ok_def)
    then show ?thesis using False o by simp
  qed
qed

lemma coins_loop_run:
  assumes n: "0 \<le> n" "n \<le> INT_MAX" and k: "rows_ok n k" and i: "k \<le> i" "i \<le> 2 ^ 17"
  shows "\<exists>tr. coins_loop n i seen = Some (k, seen @ tr) \<and> tr \<noteq> [] \<and> hd tr = i \<and>
           last tr = k \<and> (\<forall>j\<in>set tr. k \<le> j \<and> j \<le> i)"
  using i
proof (induction "nat (i - k)" arbitrary: i seen rule: less_induct)
  case less
  have k0: "0 \<le> k" using k by (simp add: rows_ok_def)
  have i0: "0 \<le> i" using k0 less.prems by simp
  note o = overshoots_iff [OF n k i0 less.prems(2)]
  show ?case
  proof (cases "k < i")
    case False
    then have ik: "i = k" using less.prems by simp
    have "to_int k = k"
      using k0 less.prems ik by (intro to_int_id) simp_all
    then have "coins_loop n i seen = Some (k, seen @ [i])"
      using o False by (subst coins_loop.simps) (simp add: ik)
    then show ?thesis using ik by (intro exI [of _ "[i]"]) simp
  next
    case True
    have d: "to_long (i - 1) = i - 1"
      using i0 less.prems by (intro to_long_id) simp_all
    have "nat (i - 1 - k) < nat (i - k)" using True by simp
    from less.hyps [OF this, of "seen @ [i]"] True less.prems
    obtain tr where tr: "coins_loop n (i - 1) (seen @ [i]) = Some (k, (seen @ [i]) @ tr)"
      "tr \<noteq> []" "hd tr = i - 1" "last tr = k" "\<forall>j\<in>set tr. k \<le> j \<and> j \<le> i - 1"
      by auto
    have "coins_loop n i seen = Some (k, seen @ (i # tr))"
      using o True tr(1) by (subst coins_loop.simps) (simp add: d)
    moreover have "\<forall>j\<in>set (i # tr). k \<le> j \<and> j \<le> i"
      using tr(5) less.prems by auto
    ultimately show ?thesis
      using tr(2,4) by (intro exI [of _ "i # tr"]) simp
  qed
qed

lemma arrangeCoins_run:
  assumes "0 \<le> n" "n \<le> INT_MAX"
  shows "\<exists>k i tr. rows_ok n k \<and> estimate n = Inr i \<and> k + 1 \<le> i \<and> i \<le> k + 2 \<and>
           arrangeCoins n = Some (Inr (k, tr)) \<and> tr \<noteq> [] \<and> hd tr = i \<and> last tr = k \<and>
           (\<forall>j\<in>set tr. k \<le> j \<and> j \<le> i)"
proof -
  from rows_exists [OF assms(1)] obtain k where k: "rows_ok n k" ..
  from estimate_range [OF assms k] obtain i where
    i: "estimate n = Inr i" "k + 1 \<le> i" "i \<le> k + 2" by blast
  have "i \<le> 2 ^ 17" using i(3) rows_ok_small [OF k assms(2)] by simp
  moreover have "k \<le> i" using i(2) by simp
  ultimately obtain tr where tr: "coins_loop n i [] = Some (k, [] @ tr)" "tr \<noteq> []" "hd tr = i"
      "last tr = k" "\<forall>j\<in>set tr. k \<le> j \<and> j \<le> i"
    using coins_loop_run [OF assms k, of i "[]"] by blast
  have "arrangeCoins n = Some (Inr (k, tr))"
    using tr(1) by (simp add: arrangeCoins_def i(1))
  then show ?thesis using k i tr by blast
qed

text \<open>
  A correctly rounded square root is recognised by squaring the two midpoints next to
  it: \<open>sqrt 41\<close> rounds to 6.4031242374328485.
\<close>

lemma fl_sqrt_41: "fl (sqrt 41) = 28161238212607 / 2 ^ 42"
proof -
  have lo: "4 \<le> sqrt 41" by (rule real_le_rsqrt) simp
  have hi: "sqrt 41 < 8" by (rule real_less_lsqrt) simp_all
  have "fl (sqrt 41) = of_int (round_even (sqrt 41 / 2 powi (- 50))) * 2 powi (- 50)"
    using lo hi by (intro fl_eval) simp_all
  moreover have "round_even (sqrt 41 / 2 powi (- 50)) = 7209276982427392"
  proof (rule round_even_near)
    have "(14418553964854783 / 2 ^ 51 :: real) < sqrt 41"
      by (rule real_less_rsqrt) (simp add: power2_eq_square)
    then show "real_of_int 7209276982427392 - 1 / 2 < sqrt 41 / 2 powi (- 50)"
      by simp
    have "sqrt 41 < (14418553964854785 / 2 ^ 51 :: real)"
      by (rule real_less_lsqrt) (simp_all add: power2_eq_square)
    then show "sqrt 41 / 2 powi (- 50) < real_of_int 7209276982427392 + 1 / 2"
      by simp
  qed
  ultimately show ?thesis by simp
qed

text \<open>The run of \<^verbatim>\<open>arrangeCoins(5)\<close>: the estimate is 3, the loop tests 3 and 2.\<close>

lemma estimate_5: "estimate 5 = Inr 3"
proof -
  have d: "discriminant 5 = 41"
    by (simp add: discriminant_def to_long_def wrap_def)
  have c: "d_of_int 41 = Inr 41"
    using to_double_Inr [of 41] fl_of_int [of 41] by (simp add: d_of_int_def)
  define r :: real where "r = 28161238212607 / 2 ^ 42"
  define t :: real where "t = 23763191701503 / 2 ^ 42"
  define h :: real where "h = 23763191701503 / 2 ^ 43"
  define j :: real where "j = 32559284723711 / 2 ^ 43"
  have "to_double (sqrt 41) = Inr (fl (sqrt 41))"
    by (rule to_double_Inr) (simp_all add: fl_sqrt_41 real_le_lsqrt)
  then have s: "dsqrt 41 = Inr r"
    by (simp add: dsqrt_def fl_sqrt_41 r_def)
  have "r - 1 = t" by (simp add: r_def t_def)
  moreover have "fl t = t"
    unfolding t_def by (rule fl_exact_ratio [of _ 23763191701503 42]) simp_all
  moreover have "to_double t = Inr (fl t)"
    by (rule to_double_Inr) (simp_all add: t_def)
  ultimately have u: "dsub r 1 = Inr t" by (simp add: dsub_def)
  have "t / 2 = h" by (simp add: t_def h_def)
  moreover have "fl h = h"
    unfolding h_def by (rule fl_exact_ratio [of _ 23763191701503 43]) simp_all
  moreover have "to_double h = Inr (fl h)"
    by (rule to_double_Inr) (simp_all add: h_def)
  ultimately have v: "ddiv t 2 = Inr h" by (simp add: ddiv_def)
  have "h + 1 = j" by (simp add: h_def j_def)
  moreover have "fl j = j"
    unfolding j_def by (rule fl_exact_ratio [of _ 32559284723711 43]) simp_all
  moreover have "to_double j = Inr (fl j)"
    by (rule to_double_Inr) (simp_all add: j_def)
  ultimately have w: "dadd h 1 = Inr j" by (simp add: dadd_def)
  have "\<lfloor>j\<rfloor> = 3" by (simp add: j_def)
  then have "trunc j = 3" by (simp add: trunc_def j_def)
  then have l: "d_to_long j = Inr 3" by (simp add: d_to_long_def)
  show ?thesis by (simp add: estimate_def d c s u v w l)
qed

lemma coins_loop_5: "coins_loop 5 3 [] = Some (2, [3, 2])"
  by code_simp

lemma arrangeCoins_5: "arrangeCoins 5 = Some (Inr (2, [3, 2]))"
  by (simp add: arrangeCoins_def estimate_5 coins_loop_5)

text \<open>
  Claim C2. For every \<open>n\<close> with \<open>0 \<le> n \<le> 2\<^sup>3\<^sup>1 - 1\<close>, \<^verbatim>\<open>arrangeCoins(n)\<close> returns a \<open>k\<close>
  with \<open>k * (k + 1) / 2 \<le> n < (k + 1) * (k + 2) / 2\<close>, which is the largest \<open>k\<close> with
  \<open>k * (k + 1) / 2 \<le> n\<close>.
\<close>

theorem arrangeCoins_complete_rows:
  assumes "0 \<le> n" "n \<le> INT_MAX"
  shows "\<exists>k seen. arrangeCoins n = Some (Inr (k, seen)) \<and> 0 \<le> k \<and>
           k * (k + 1) div 2 \<le> n \<and> n < (k + 1) * (k + 2) div 2 \<and>
           (\<forall>j. j * (j + 1) div 2 \<le> n \<longrightarrow> j \<le> k)"
proof -
  from arrangeCoins_run [OF assms] obtain k seen where
    run: "arrangeCoins n = Some (Inr (k, seen))" and k: "rows_ok n k" by blast
  have k0: "0 \<le> k" and lo: "k * (k + 1) div 2 \<le> n" and hi: "n < (k + 1) * (k + 2) div 2"
    using k by (simp_all add: rows_ok_def)
  have "j \<le> k" if j: "j * (j + 1) div 2 \<le> n" for j
  proof (rule ccontr)
    assume "\<not> j \<le> k"
    then have "(k + 1) * (k + 1 + 1) div 2 \<le> j * (j + 1) div 2"
      using k0 by (intro triangle_mono) simp_all
    then show False using j hi by (simp add: add.assoc)
  qed
  with run k0 lo hi show ?thesis by blast
qed

text \<open>
  The examples of the specification: \<open>arrangeCoins(5) = 2\<close> and \<open>arrangeCoins(8) = 3\<close>.
  The run for 5 is evaluated (the estimate is 3, one decrement); the result for 8 follows
  from the theorem.
\<close>

theorem arrangeCoins_complete_rows_witness:
  "(0::int) \<le> 8 \<and> (8::int) \<le> INT_MAX \<and>
   arrangeCoins 5 = Some (Inr (2, [3, 2])) \<and>
   (\<exists>seen. arrangeCoins 8 = Some (Inr (3, seen)))"
proof -
  have h: "(0::int) \<le> 8" "(8::int) \<le> INT_MAX" by (simp_all add: INT_MAX_def)
  from arrangeCoins_complete_rows [OF h] obtain k seen where
    "arrangeCoins 8 = Some (Inr (k, seen))" "rows_ok 8 k"
    unfolding rows_ok_def by blast
  moreover have "rows_ok 8 3" by (simp add: rows_ok_def)
  ultimately have "arrangeCoins 8 = Some (Inr (3, seen))" using rows_unique by blast
  then have "\<exists>seen. arrangeCoins 8 = Some (Inr (3, seen))" ..
  then show ?thesis using h arrangeCoins_5 by simp
qed

text \<open>
  Claim C5. For every \<open>n\<close> with \<open>0 \<le> n \<le> 2\<^sup>3\<^sup>1 - 1\<close>, the initial estimate that
  \<^verbatim>\<open>arrangeCoins\<close> computes in double arithmetic is at least the correct answer \<open>k\<close>
  (it is \<open>k + 1\<close> or \<open>k + 2\<close>), every value of \<open>i\<close> the decrement-only loop tests is at
  least \<open>k\<close>, and the value at which the loop exits is \<open>k\<close>.
\<close>

theorem arrangeCoins_estimate_covers:
  assumes "0 \<le> n" "n \<le> INT_MAX"
  shows "\<exists>i0 k seen. estimate n = Inr i0 \<and> arrangeCoins n = Some (Inr (k, seen)) \<and>
           0 \<le> k \<and> k * (k + 1) div 2 \<le> n \<and> n < (k + 1) * (k + 2) div 2 \<and>
           k \<le> i0 \<and> i0 \<le> k + 2 \<and> seen \<noteq> [] \<and> hd seen = i0 \<and> last seen = k \<and>
           (\<forall>i\<in>set seen. k \<le> i)"
proof -
  from arrangeCoins_run [OF assms] obtain k i seen where
    *: "rows_ok n k" "estimate n = Inr i" "k + 1 \<le> i" "i \<le> k + 2"
      "arrangeCoins n = Some (Inr (k, seen))" "seen \<noteq> []" "hd seen = i" "last seen = k"
      "\<forall>j\<in>set seen. k \<le> j \<and> j \<le> i"
    by blast
  have "0 \<le> k" "k * (k + 1) div 2 \<le> n" "n < (k + 1) * (k + 2) div 2"
    using *(1) by (simp_all add: rows_ok_def)
  moreover have "k \<le> i" using *(3) by simp
  moreover have "\<forall>j\<in>set seen. k \<le> j" using *(9) by blast
  ultimately show ?thesis using *(2,4,5,6,7,8) by blast
qed

text \<open>
  For \<open>n = 5\<close> the estimate evaluates to 3 and the loop tests 3 and 2; for \<open>n = 8\<close> the
  theorem gives an estimate between 3 and 5 and the exit at 3.
\<close>

theorem arrangeCoins_estimate_covers_witness:
  "(0::int) \<le> 5 \<and> (5::int) \<le> INT_MAX \<and>
   estimate 5 = Inr 3 \<and> arrangeCoins 5 = Some (Inr (2, [3, 2])) \<and>
   (\<exists>i0 seen. estimate 8 = Inr i0 \<and> arrangeCoins 8 = Some (Inr (3, seen)) \<and>
      3 \<le> i0 \<and> i0 \<le> 5 \<and> hd seen = i0 \<and> last seen = 3)"
proof -
  have h: "(0::int) \<le> 8" "(8::int) \<le> INT_MAX" by (simp_all add: INT_MAX_def)
  from arrangeCoins_estimate_covers [OF h] obtain i0 k seen where
    *: "estimate 8 = Inr i0" "arrangeCoins 8 = Some (Inr (k, seen))"
      "k \<le> i0" "i0 \<le> k + 2" "hd seen = i0" "last seen = k"
    and k: "0 \<le> k" "k * (k + 1) div 2 \<le> 8" "8 < (k + 1) * (k + 2) div 2"
    by blast
  have "rows_ok 8 k" using k by (simp add: rows_ok_def)
  moreover have "rows_ok 8 3" by (simp add: rows_ok_def)
  ultimately have "k = 3" by (rule rows_unique)
  then have "\<exists>i0 seen. estimate 8 = Inr i0 \<and> arrangeCoins 8 = Some (Inr (3, seen)) \<and>
      3 \<le> i0 \<and> i0 \<le> 5 \<and> hd seen = i0 \<and> last seen = 3"
    using * by auto
  then show ?thesis using estimate_5 arrangeCoins_5 by (simp add: INT_MAX_def)
qed

section \<open>Properties of mySqrt\<close>

lemma lit_0_1_bounds: "999 / 10000 \<le> lit_0_1" "lit_0_1 \<le> 1001 / 10000"
proof -
  have "\<bar>fl (1 / 10) - 1 / 10\<bar> \<le> (1 / 10) / 2 ^ 53"
    by (rule fl_rel) simp
  then have "\<bar>fl (1 / 10) - 1 / 10\<bar> \<le> 1 / 100000"
    by simp
  then show "999 / 10000 \<le> lit_0_1" "lit_0_1 \<le> 1001 / 10000"
    unfolding lit_0_1_def by linarith+
qed

lemma threshold_bounds:
  assumes "0 \<le> x" "x \<le> INT_MAX"
  shows "of_int x + 99 / 1000 \<le> threshold x" "threshold x \<le> of_int x + 101 / 1000"
proof -
  define X :: real where "X = of_int x"
  have X: "0 \<le> X" "X \<le> 2 ^ 31"
    using assms by (simp_all add: X_def INT_MAX_def)
  note c = lit_0_1_bounds
  have "\<bar>fl (X + lit_0_1) - (X + lit_0_1)\<bar> \<le> (X + lit_0_1) / 2 ^ 53"
    using X c by (intro fl_rel) simp
  moreover have "(X + lit_0_1) / 2 ^ 53 \<le> (2 ^ 31 + 1) / 2 ^ 53"
    using X c by (intro divide_right_mono) simp_all
  moreover have "((2::real) ^ 31 + 1) / 2 ^ 53 \<le> 1 / 100000" by simp
  ultimately have "\<bar>fl (X + lit_0_1) - (X + lit_0_1)\<bar> \<le> 1 / 100000"
    by linarith
  then show "of_int x + 99 / 1000 \<le> threshold x" "threshold x \<le> of_int x + 101 / 1000"
    using c unfolding threshold_def X_def by linarith+
qed

lemma test_true:
  assumes x: "0 \<le> x" "x \<le> INT_MAX" and a: "0 \<le> a" and t: "threshold x < fl (a * a)"
  shows "of_int x + 9 / 100 \<le> a * a"
proof (rule ccontr)
  assume "\<not> of_int x + 9 / 100 \<le> a * a"
  then have le: "a * a \<le> of_int x + 9 / 100" by simp
  define Y :: real where "Y = of_int x + 9 / 100"
  have Y: "9 / 100 \<le> Y" "Y \<le> 2 ^ 31 + 1"
    using x by (simp_all add: Y_def INT_MAX_def)
  have "fl (a * a) \<le> fl Y"
    using le unfolding Y_def by (intro fl_mono) simp_all
  moreover have "\<bar>fl Y - Y\<bar> \<le> Y / 2 ^ 53"
    using Y by (intro fl_rel) simp
  moreover have "Y / 2 ^ 53 \<le> (2 ^ 31 + 1) / 2 ^ 53"
    using Y by (intro divide_right_mono) simp_all
  moreover have "((2::real) ^ 31 + 1) / 2 ^ 53 \<le> 1 / 100000" by simp
  ultimately have "fl (a * a) \<le> Y + 1 / 100000" by linarith
  then show False
    using t threshold_bounds(1) [OF x] unfolding Y_def by linarith
qed

lemma test_false:
  assumes x: "0 \<le> x" "x \<le> INT_MAX" and a: "0 \<le> a" and t: "\<not> threshold x < fl (a * a)"
  shows "a * a < of_int x + 1"
proof (rule ccontr)
  assume "\<not> a * a < of_int x + 1"
  then have "real_of_int (x + 1) \<le> a * a" by simp
  then have "fl (of_int (x + 1)) \<le> fl (a * a)"
    using x by (intro fl_mono) simp_all
  moreover have "fl (of_int (x + 1)) = of_int (x + 1)"
    using x by (intro fl_of_int) (simp_all add: INT_MAX_def)
  ultimately have "of_int x + 1 \<le> fl (a * a)" by simp
  then show False
    using t threshold_bounds(2) [OF x] by linarith
qed

lemma square_le_D:
  fixes a b :: real
  assumes "b * b \<le> a * a" "0 \<le> a"
  shows "b \<le> a"
  using assms power2_le_imp_le [of b a] by (simp add: power2_eq_square)

lemma square_less_D:
  fixes a b :: real
  assumes "b * b < a * a" "0 \<le> a"
  shows "b < a"
  using assms power2_less_imp_less [of b a] by (simp add: power2_eq_square)

lemma newton_decrease:
  assumes x: "0 \<le> x" "x \<le> INT_MAX" and a: "0 < a" "a \<le> 2 ^ 30"
    and sq: "of_int x + 9 / 100 \<le> a * a"
  shows "newton x a \<le> a - 1 / 2 ^ 22"
proof -
  define X :: real where "X = of_int x"
  have X: "0 \<le> X" "X \<le> 2147483648" using x by (simp_all add: X_def INT_MAX_def)
  have a30: "a \<le> 1073741824" using a(2) by simp
  have "(3 / 10) * (3 / 10) \<le> a * a" using sq X(1) unfolding X_def by simp
  moreover have "0 \<le> a" using a(1) by simp
  ultimately have a3: "3 / 10 \<le> a" by (rule square_le_D)
  define Q where "Q = X / a"
  define q where "q = fl Q"
  define s where "s = fl (a + q)"
  have n: "newton x a = fl (s / 2)"
    by (simp add: newton_def s_def q_def Q_def X_def)
  have Q0: "0 \<le> Q" using X a by (simp add: Q_def)
  have q0: "0 \<le> q" unfolding q_def using Q0 by (rule fl_nonneg)
  have "1 / 4 \<le> a + q" using a3 q0 by linarith
  then have s4: "1 / 4 \<le> s" unfolding s_def by (rule fl_ge_quarter)
  have aq: "a + q = 0 \<or> 1 / 2 ^ 40 \<le> a + q" using a3 q0 by simp
  have s2: "s / 2 = 0 \<or> 1 / 2 ^ 40 \<le> s / 2" using s4 by simp
  show ?thesis
  proof (cases "131072 \<le> a")
    case True
    have "Q \<le> 2147483648 / 131072"
      unfolding Q_def using X True by (intro frac_le) simp_all
    then have "Q \<le> 2 ^ 14" by simp
    then have "q \<le> fl (2 ^ 14)" unfolding q_def using Q0 by (intro fl_mono)
    then have "q \<le> 2 ^ 14" by (simp only: fl_pow2)
    then have q: "q \<le> 16384" by simp
    have b: "a + q \<le> 2147483648" using a30 q by linarith
    have "s \<le> a + q + 1 / 4194304"
      unfolding s_def using aq b by (rule fl_near) simp
    then have "s / 2 \<le> 2147483648" using b by linarith
    with s2 have "fl (s / 2) \<le> s / 2 + 1 / 4194304"
      by (rule fl_near) simp
    then have "newton x a \<le> a - 1 / 4194304"
      using \<open>s \<le> a + q + 1 / 4194304\<close> q True unfolding n by linarith
    then show ?thesis by simp
  next
    case False
    then have a17: "a < 131072" by simp
    define z where "z = (9 / 100) / a"
    have "(9 / 100) / 131072 \<le> z"
      unfolding z_def using a a17 by (intro divide_left_mono) simp_all
    then have z: "9 / 13107200 \<le> z" by simp
    have "X \<le> a * a - 9 / 100" using sq unfolding X_def by simp
    then have "X / a \<le> (a * a - 9 / 100) / a"
      using a by (intro divide_right_mono) simp_all
    also have "\<dots> = a - z" using a by (simp add: z_def field_simps)
    finally have Qz: "Q \<le> a - z" unfolding Q_def .
    have Qrel: "Q = 0 \<or> 1 / 2 ^ 40 \<le> Q"
    proof (cases "x = 0")
      case True
      then show ?thesis by (simp add: Q_def X_def)
    next
      case False
      then have "1 \<le> X" using x unfolding X_def by simp
      then have "1 / 131072 \<le> X / a"
        using a a17 by (intro frac_le) simp_all
      moreover have "(1::real) / 2 ^ 40 \<le> 1 / 131072" by simp
      ultimately show ?thesis unfolding Q_def by linarith
    qed
    have Qb: "Q \<le> 131072" using Qz z a17 by linarith
    have q: "q \<le> Q + 1 / 68719476736"
      unfolding q_def using Qrel Qb by (rule fl_near) simp
    have b: "a + q \<le> 524288" using q Qb a17 by linarith
    have s: "s \<le> a + q + 1 / 17179869184"
      unfolding s_def using aq b by (rule fl_near) simp
    then have "s / 2 \<le> 524288" using b by linarith
    with s2 have "fl (s / 2) \<le> s / 2 + 1 / 17179869184"
      by (rule fl_near) simp
    then have "newton x a \<le> a - 1 / 4194304"
      using s q Qz z unfolding n by linarith
    then show ?thesis by simp
  qed
qed

lemma root_small:
  fixes r x :: int
  assumes "0 \<le> r" "r * r \<le> x"
  shows "r \<le> x"
proof (cases "r = 0")
  case True
  then show ?thesis using assms by simp
next
  case False
  then have "r * 1 \<le> r * r" using assms(1) by (intro mult_left_mono) simp_all
  then show ?thesis using assms(2) by simp
qed

lemma newton_lower:
  assumes x: "0 \<le> x" "x \<le> INT_MAX" and r: "0 \<le> r" "r * r \<le> x"
    and a: "is_double a" "0 < a" "of_int r \<le> a"
  shows "of_int r \<le> newton x a"
proof -
  define X :: real where "X = of_int x"
  define R :: real where "R = of_int r"
  have R0: "0 \<le> R" using r(1) by (simp add: R_def)
  have "r \<le> x" using r by (rule root_small)
  then have r31: "r \<le> 2147483647" using x(2) by (simp add: INT_MAX_def)
  have RX: "R * R \<le> X"
    unfolding R_def X_def using r(2) by (metis of_int_le_iff of_int_mult)
  have Ra: "R \<le> a" using a(3) by (simp add: R_def)
  define Q where "Q = X / a"
  define q where "q = fl Q"
  define s where "s = fl (a + q)"
  have n: "newton x a = fl (s / 2)"
    by (simp add: newton_def s_def q_def Q_def X_def)
  have X0: "0 \<le> X" using x(1) by (simp add: X_def)
  have Q0: "0 \<le> Q" using X0 a(2) by (simp add: Q_def)
  have q0: "0 \<le> q" unfolding q_def using Q0 by (rule fl_nonneg)
  have sum: "2 * R \<le> a + q"
  proof (cases "2 * R \<le> a")
    case True
    then show ?thesis using q0 by linarith
  next
    case False
    define d where "d = of_int (2 * r) - a"
    have d: "d = 2 * R - a" by (simp add: d_def R_def)
    have d0: "0 \<le> of_int (2 * r) - a" using False by (simp add: R_def)
    have da: "of_int (2 * r) - a \<le> a" using Ra by (simp add: R_def)
    have "fl (of_int (2 * r) - a) = of_int (2 * r) - a"
      using a(1,2) _ _ d0 da by (rule fl_int_minus_double) (use r(1) r31 in simp_all)
    then have fd: "fl d = d" by (simp only: d_def)
    have "0 \<le> (R - a) * (R - a)" by simp
    then have "(2 * R - a) * a \<le> R * R" by (simp add: algebra_simps)
    then have "d * a \<le> X" using RX unfolding d by linarith
    then have "d \<le> Q" unfolding Q_def using a(2) by (simp add: pos_le_divide_eq)
    moreover have "0 \<le> d" using d0 by (simp only: d_def)
    ultimately have "fl d \<le> fl Q" by (intro fl_mono)
    then have "d \<le> q" by (simp only: fd q_def)
    then show ?thesis unfolding d by linarith
  qed
  have "real_of_int (2 * r) \<le> a + q" using sum by (simp add: R_def)
  then have "fl (of_int (2 * r)) \<le> fl (a + q)"
    using r(1) by (intro fl_mono) simp_all
  moreover have "fl (of_int (2 * r)) = of_int (2 * r)"
    using r(1) r31 by (intro fl_of_int) simp_all
  ultimately have "2 * R \<le> s" by (simp add: s_def R_def)
  then have "real_of_int r \<le> s / 2" by (simp add: R_def)
  then have "fl (of_int r) \<le> fl (s / 2)"
    using r(1) by (intro fl_mono) simp_all
  moreover have "fl (of_int r) = of_int r"
    using r(1) r31 by (intro fl_of_int) simp_all
  ultimately show ?thesis by (simp add: n)
qed

lemma newton_positive:
  assumes x: "0 \<le> x" and a: "1 / 4 \<le> a"
  shows "1 / 8 \<le> newton x a" "is_double (newton x a)"
proof -
  have "0 \<le> of_int x / a" using x a by simp
  then have "0 \<le> fl (of_int x / a)" by (rule fl_nonneg)
  then have "1 / 4 \<le> a + fl (of_int x / a)" using a by linarith
  then have s: "1 / 4 \<le> fl (a + fl (of_int x / a))" by (rule fl_ge_quarter)
  then have "1 / 8 \<le> fl (a + fl (of_int x / a)) / 2" by simp
  then show "1 / 8 \<le> newton x a" unfolding newton_def by (rule fl_ge_eighth)
  have "0 \<le> fl (a + fl (of_int x / a)) / 2" using s by simp
  then show "is_double (newton x a)" unfolding newton_def by (rule fl_is_double)
qed

lemma d_of_int_x:
  assumes "0 \<le> x" "x \<le> INT_MAX"
  shows "d_of_int x = Inr (of_int x)"
proof -
  have "fl (of_int x) = of_int x"
    using assms by (intro fl_of_int) (simp_all add: INT_MAX_def)
  moreover have "to_double (of_int x) = Inr (fl (of_int x))"
    using assms by (intro to_double_Inr) (simp_all add: INT_MAX_def)
  ultimately show ?thesis by (simp add: d_of_int_def)
qed

lemma loop_test_eq:
  assumes x: "0 \<le> x" "x \<le> INT_MAX" and a: "0 \<le> a" "a \<le> 2 ^ 30"
  shows "loop_test x a = Inr (threshold x < fl (a * a))"
proof -
  have "a * a \<le> 2 ^ 30 * 2 ^ 30" using a by (intro mult_mono) simp_all
  then have "a * a \<le> 2 ^ 64" by simp
  moreover have "0 \<le> a * a" using a by simp
  ultimately have m: "dmul a a = Inr (fl (a * a))"
    unfolding dmul_def by (intro to_double_Inr)
  have "real_of_int x + lit_0_1 \<le> 2 ^ 64"
    using x lit_0_1_bounds by (simp add: INT_MAX_def)
  moreover have "0 \<le> real_of_int x + lit_0_1" using x lit_0_1_bounds by simp
  ultimately have t: "dadd (of_int x) lit_0_1 = Inr (threshold x)"
    unfolding dadd_def threshold_def by (intro to_double_Inr)
  show ?thesis by (simp add: loop_test_def m d_of_int_x [OF x] t)
qed

lemma newton_step_eq:
  assumes x: "0 \<le> x" "x \<le> INT_MAX" and a: "1 / 4 \<le> a" "a \<le> 2 ^ 30"
  shows "newton_step x a = Inr (newton x a)"
proof -
  define X :: real where "X = of_int x"
  have X: "0 \<le> X" "X \<le> 2 ^ 31" using x by (simp_all add: X_def INT_MAX_def)
  define q where "q = fl (X / a)"
  define s where "s = fl (a + q)"
  have Q0: "0 \<le> X / a" using X a by simp
  have "X / a \<le> 2 ^ 31 / (1 / 4)" using X a by (intro frac_le) simp_all
  then have Q: "X / a \<le> 2 ^ 33" by simp
  then have "X / a \<le> 2 ^ 64" by simp
  with Q0 have "to_double (X / a) = Inr q" unfolding q_def by (rule to_double_Inr)
  then have 1: "ddiv X a = Inr q" using a by (simp add: ddiv_def)
  have q0: "0 \<le> q" unfolding q_def using Q0 by (rule fl_nonneg)
  have "q \<le> fl (2 ^ 33)" unfolding q_def using Q0 Q by (rule fl_mono)
  then have q33: "q \<le> 2 ^ 33" by (simp only: fl_pow2)
  have aq0: "0 \<le> a + q" using a q0 by simp
  have aq: "a + q \<le> 2 ^ 34" using a q33 by simp
  then have "a + q \<le> 2 ^ 64" by simp
  with aq0 have "to_double (a + q) = Inr s" unfolding s_def by (rule to_double_Inr)
  then have 2: "dadd a q = Inr s" by (simp add: dadd_def)
  have s0: "0 \<le> s" unfolding s_def using aq0 by (rule fl_nonneg)
  have "s \<le> fl (2 ^ 34)" unfolding s_def using aq0 aq by (rule fl_mono)
  then have "s \<le> 2 ^ 34" by (simp only: fl_pow2)
  then have "s / 2 \<le> 2 ^ 64" by simp
  moreover have "0 \<le> s / 2" using s0 by simp
  ultimately have "to_double (s / 2) = Inr (fl (s / 2))" by (intro to_double_Inr)
  then have 3: "ddiv s 2 = Inr (fl (s / 2))" by (simp add: ddiv_def)
  have "newton x a = fl (s / 2)" by (simp add: newton_def s_def q_def X_def)
  then show ?thesis
    by (simp add: newton_step_def d_of_int_x [OF x] 1 [unfolded X_def] 2 3)
qed

lemma root_exists:
  assumes "0 \<le> x"
  shows "\<exists>r. root_ok x r"
  using assms
proof (induction x rule: int_ge_induct)
  case base
  have "root_ok 0 0" by (simp add: root_ok_def)
  then show ?case ..
next
  case (step x)
  then obtain r where r: "root_ok x r" by blast
  show ?case
  proof (cases "x + 1 < (r + 1) * (r + 1)")
    case True
    then have "root_ok (x + 1) r" using r by (simp add: root_ok_def)
    then show ?thesis ..
  next
    case False
    then have eq: "(r + 1) * (r + 1) = x + 1" using r by (simp add: root_ok_def)
    have "(r + 1) * (r + 1) < (r + 1 + 1) * (r + 1 + 1)"
      using r by (intro mult_strict_mono) (simp_all add: root_ok_def)
    then have "root_ok (x + 1) (r + 1)"
      using r eq by (simp add: root_ok_def)
    then show ?thesis ..
  qed
qed

lemma root_unique:
  assumes "root_ok x r" "root_ok x r'"
  shows "r = r'"
proof (rule ccontr)
  assume ne: "r \<noteq> r'"
  have *: False if a: "root_ok x a" and b: "root_ok x b" and lt: "a < b" for a b
  proof -
    have "(a + 1) * (a + 1) \<le> b * b"
      using a lt by (intro mult_mono) (simp_all add: root_ok_def)
    then show False using a b by (simp add: root_ok_def)
  qed
  from ne consider "r < r'" | "r' < r" by linarith
  then show False using * assms by cases blast+
qed

lemma sqrt_loop_run:
  assumes x: "0 \<le> x" "x \<le> INT_MAX" and r: "root_ok x r"
    and a: "is_double a" "of_int r \<le> a" "a \<le> 2 ^ 30"
  shows "\<exists>a' ds'. sqrt_loop x a ds = Some (Inr (a', ds @ ds')) \<and>
           of_int r \<le> a' \<and> a' < of_int r + 1 \<and> (\<forall>d\<in>set ds'. 0 < d)"
  using a
proof (induction "nat \<lfloor>a * 2 ^ 22\<rfloor>" arbitrary: a ds rule: less_induct)
  case less
  have r0: "0 \<le> r" and rr: "r * r \<le> x" and rx: "x < (r + 1) * (r + 1)"
    using r by (simp_all add: root_ok_def)
  have a0: "0 \<le> a" using less.prems(2) r0 by (meson of_int_0_le_iff order_trans)
  note t = loop_test_eq [OF x a0 less.prems(3)]
  show ?case
  proof (cases "threshold x < fl (a * a)")
    case True
    have sq: "of_int x + 9 / 100 \<le> a * a" using x a0 True by (rule test_true)
    have "(3 / 10) * (3 / 10) \<le> a * a" using sq x(1) by simp
    then have a3: "3 / 10 \<le> a" using a0 by (rule square_le_D)
    then have a4: "1 / 4 \<le> a" and apos: "0 < a" by simp_all
    define b where "b = newton x a"
    have st: "newton_step x a = Inr b"
      unfolding b_def using x a4 less.prems(3) by (rule newton_step_eq)
    have dec: "b \<le> a - 1 / 2 ^ 22"
      unfolding b_def using x apos less.prems(3) sq by (rule newton_decrease)
    have low: "of_int r \<le> b"
      unfolding b_def using x r0 rr less.prems(1) apos less.prems(2) by (rule newton_lower)
    have dbl: "is_double b" and b8: "1 / 8 \<le> b"
      unfolding b_def using newton_positive [OF x(1) a4] by simp_all
    have b30: "b \<le> 2 ^ 30" using dec less.prems(3) by simp
    have "b * 2 ^ 22 \<le> a * 2 ^ 22 - 1" using dec by (simp add: field_simps)
    then have "\<lfloor>b * 2 ^ 22\<rfloor> \<le> \<lfloor>a * 2 ^ 22 - 1\<rfloor>" by (rule floor_mono)
    then have lt: "\<lfloor>b * 2 ^ 22\<rfloor> < \<lfloor>a * 2 ^ 22\<rfloor>" by simp
    have f0: "0 \<le> \<lfloor>b * 2 ^ 22\<rfloor>" using b8 by simp
    have "nat \<lfloor>b * 2 ^ 22\<rfloor> < nat \<lfloor>a * 2 ^ 22\<rfloor>"
      by (simp only: nat_less_eq_zless [OF f0] lt)
    from less.hyps [OF this dbl low b30, of "ds @ [a]"]
    obtain a' ds' where run: "sqrt_loop x b (ds @ [a]) = Some (Inr (a', (ds @ [a]) @ ds'))"
      "of_int r \<le> a'" "a' < of_int r + 1" "\<forall>d\<in>set ds'. 0 < d"
      by blast
    have "sqrt_loop x a ds = Some (Inr (a', ds @ (a # ds')))"
      by (subst sqrt_loop.simps) (simp add: t True st run(1))
    moreover have "\<forall>d\<in>set (a # ds'). 0 < d" using run(4) apos by simp
    ultimately show ?thesis using run(2,3) by blast
  next
    case False
    have "a * a < of_int x + 1" using x a0 False by (rule test_false)
    moreover have "real_of_int (x + 1) \<le> real_of_int ((r + 1) * (r + 1))"
      using rx by (intro of_int_le_iff [THEN iffD2]) simp
    ultimately have "a * a < (of_int r + 1) * (of_int r + 1)" by simp
    moreover have "(0::real) \<le> of_int r + 1" using r0 by simp
    ultimately have up: "a < of_int r + 1" by (rule square_less_D)
    have "sqrt_loop x a ds = Some (Inr (a, ds @ []))"
      by (subst sqrt_loop.simps) (simp add: t False)
    then show ?thesis using up less.prems(2) by (intro exI [of _ a] exI [of _ "[]"]) simp
  qed
qed

lemma initial_iterate:
  assumes x: "0 \<le> x" "x \<le> INT_MAX" and r: "root_ok x r"
  shows "to_int (1 + to_int (tdiv x 2)) = 1 + x div 2"
    and "d_of_int (1 + x div 2) = Inr (of_int (1 + x div 2))"
    and "is_double (of_int (1 + x div 2))"
    and "real_of_int r \<le> of_int (1 + x div 2)"
    and "real_of_int (1 + x div 2) \<le> 2 ^ 30"
proof -
  have r0: "0 \<le> r" and rr: "r * r \<le> x" using r by (simp_all add: root_ok_def)
  define a0 where "a0 = 1 + x div 2"
  have a0: "1 \<le> a0" "a0 \<le> 2 ^ 30" using x by (simp_all add: a0_def INT_MAX_def)
  have "tdiv x 2 = x div 2" using x(1) by (intro tdiv_nonneg) simp_all
  moreover have "to_int (x div 2) = x div 2"
    using x by (intro to_int_id) (simp_all add: INT_MAX_def)
  moreover have "to_int (1 + x div 2) = 1 + x div 2"
    using x by (intro to_int_id) (simp_all add: INT_MAX_def)
  ultimately show "to_int (1 + to_int (tdiv x 2)) = 1 + x div 2" by simp
  have "fl (of_int a0) = of_int a0" using a0 by (intro fl_of_int) simp_all
  moreover have "to_double (of_int a0) = Inr (fl (of_int a0))"
    using a0 by (intro to_double_Inr) simp_all
  ultimately show "d_of_int (1 + x div 2) = Inr (of_int (1 + x div 2))"
    by (simp add: d_of_int_def a0_def)
  show "is_double (of_int (1 + x div 2))"
    using a0 unfolding a0_def by (intro is_double_of_int) simp
  have "r \<le> a0"
  proof (cases "r \<le> 1")
    case True
    then show ?thesis using a0(1) by simp
  next
    case False
    then have "2 * r \<le> r * r" by (intro mult_right_mono) simp_all
    then have "2 * r \<le> x" using rr by simp
    then show ?thesis unfolding a0_def by linarith
  qed
  then show "real_of_int r \<le> of_int (1 + x div 2)" by (simp add: a0_def)
  show "real_of_int (1 + x div 2) \<le> 2 ^ 30"
    using a0(2) unfolding a0_def by (metis of_int_le_iff of_int_numeral of_int_power)
qed

lemma mySqrt_run:
  assumes x: "0 \<le> x" "x \<le> INT_MAX"
  shows "\<exists>r ds. mySqrt x = Some (Inr (r, ds)) \<and> root_ok x r \<and> (\<forall>d\<in>set ds. 0 < d)"
proof -
  from root_exists [OF x(1)] obtain r where r: "root_ok x r" ..
  then have r0: "0 \<le> r" and rr: "r * r \<le> x" by (simp_all add: root_ok_def)
  have rx: "r \<le> x" using r0 rr by (rule root_small)
  note i = initial_iterate [OF x r]
  from sqrt_loop_run [OF x r i(3,4,5), of "[]"] obtain a ds where
    run: "sqrt_loop x (of_int (1 + x div 2)) [] = Some (Inr (a, ds))"
      "of_int r \<le> a" "a < of_int r + 1" "\<forall>d\<in>set ds. 0 < d"
    by auto
  have "0 \<le> a" using run(2) r0 by (meson of_int_0_le_iff order_trans)
  moreover have "\<lfloor>a\<rfloor> = r" using run(2,3) by (intro floor_unique) simp_all
  ultimately have "trunc a = r" by (simp add: trunc_def)
  moreover have "r < 2 ^ 31" using rx x(2) by (simp add: INT_MAX_def)
  ultimately have "d_to_int a = Inr r" using r0 by (simp add: d_to_int_def)
  then have "mySqrt x = Some (Inr (r, ds))"
    using run(1) by (simp add: mySqrt_def i(1,2))
  then show ?thesis using r run(4) by blast
qed

text \<open>The runs of \<^verbatim>\<open>mySqrt(0)\<close> and \<^verbatim>\<open>mySqrt(1)\<close>.\<close>

lemma sqrt_loop_0:
  "sqrt_loop 0 1 [] = Some (Inr (1 / 4, [1, 1 / 2]))"
proof -
  have z: "(0::int) \<le> 0" "(0::int) \<le> INT_MAX" by (simp_all add: INT_MAX_def)
  note th = threshold_bounds [OF z]
  have h: "fl (1 / 2) = 1 / 2" using fl_inv_pow2 [of 1] by simp
  have q: "fl (1 / 4) = 1 / 4" using fl_inv_pow2 [of 2] by simp
  have s: "fl (1 / 16) = 1 / 16" using fl_inv_pow2 [of 4] by simp
  have t1: "loop_test 0 1 = Inr True"
    using th by (subst loop_test_eq [OF z]) (simp_all add: fl_1)
  have n1: "newton_step 0 1 = Inr (1 / 2)"
    by (subst newton_step_eq [OF z]) (simp_all add: newton_def fl_0 fl_1 h)
  have t2: "loop_test 0 (1 / 2) = Inr True"
    using th by (subst loop_test_eq [OF z]) (simp_all add: q)
  have n2: "newton_step 0 (1 / 2) = Inr (1 / 4)"
    by (subst newton_step_eq [OF z]) (simp_all add: newton_def fl_0 h q)
  have t3: "loop_test 0 (1 / 4) = Inr False"
    using th by (subst loop_test_eq [OF z]) (simp_all add: s)
  have "sqrt_loop 0 (1 / 4) [1, 1 / 2] = Some (Inr (1 / 4, [1, 1 / 2]))"
    by (subst sqrt_loop.simps) (simp add: t3)
  then have "sqrt_loop 0 (1 / 2) [1] = Some (Inr (1 / 4, [1, 1 / 2]))"
    by (subst sqrt_loop.simps) (simp add: t2 n2)
  then show ?thesis
    by (subst sqrt_loop.simps) (simp add: t1 n1)
qed

lemma mySqrt_0: "mySqrt 0 = Some (Inr (0, [1, 1 / 2]))"
proof -
  have "to_int (1 + to_int (tdiv 0 2)) = 1"
    by (simp add: tdiv_def to_int_def wrap_def)
  moreover have "d_of_int 1 = Inr 1"
    using to_double_Inr [of 1] by (simp add: d_of_int_def fl_1)
  moreover have "d_to_int (1 / 4) = Inr 0"
    by (simp add: d_to_int_def trunc_def)
  ultimately show ?thesis by (simp add: mySqrt_def sqrt_loop_0)
qed

lemma mySqrt_1: "mySqrt 1 = Some (Inr (1, []))"
proof -
  have z: "(0::int) \<le> 1" "(1::int) \<le> INT_MAX" by (simp_all add: INT_MAX_def)
  note th = threshold_bounds [OF z]
  have t: "loop_test 1 1 = Inr False"
    using th by (subst loop_test_eq [OF z]) (simp_all add: fl_1)
  have l: "sqrt_loop 1 1 [] = Some (Inr (1, []))"
    by (subst sqrt_loop.simps) (simp add: t)
  have "to_int (1 + to_int (tdiv 1 2)) = 1"
    by (simp add: tdiv_def to_int_def wrap_def)
  moreover have "d_of_int 1 = Inr 1"
    using to_double_Inr [of 1] by (simp add: d_of_int_def fl_1)
  moreover have "d_to_int 1 = Inr 1"
    by (simp add: d_to_int_def trunc_def)
  ultimately show ?thesis by (simp add: mySqrt_def l)
qed

text \<open>The literal \<^verbatim>\<open>0.1\<close> is the double with the bits \<^verbatim>\<open>0x3FB999999999999A\<close>.\<close>

lemma lit_0_1_value: "lit_0_1 = 3602879701896397 / 2 ^ 55"
proof -
  have "fl (1 / 10) = of_int (round_even ((1 / 10) / 2 powi (- 56))) * 2 powi (- 56)"
    by (rule fl_eval) simp_all
  moreover have "round_even ((1 / 10) / 2 powi (- 56)) = 7205759403792794"
    by (simp add: round_even_def)
  ultimately show ?thesis by (simp add: lit_0_1_def)
qed

lemma fl_four_thirds: "fl (4 / 3) = 6004799503160661 / 2 ^ 52"
proof -
  have "fl (4 / 3) = of_int (round_even ((4 / 3) / 2 powi (- 52))) * 2 powi (- 52)"
    by (rule fl_eval) simp_all
  moreover have "round_even ((4 / 3) / 2 powi (- 52)) = 6004799503160661"
    by (simp add: round_even_def)
  ultimately show ?thesis by simp
qed

lemma newton_4_3: "newton 4 3 = 4878899596318037 / 2 ^ 51"
proof -
  have s: "fl (3 + 6004799503160661 / 2 ^ 52) = 4878899596318037 / 2 ^ 50"
  proof -
    have "fl (3 + 6004799503160661 / 2 ^ 52) =
        of_int (round_even ((3 + 6004799503160661 / 2 ^ 52) / 2 powi (- 50))) * 2 powi (- 50)"
      by (rule fl_eval) simp_all
    moreover have "round_even ((3 + 6004799503160661 / 2 ^ 52) / 2 powi (- 50)) = 4878899596318037"
      by (simp add: round_even_def)
    ultimately show ?thesis by simp
  qed
  have h: "fl (4878899596318037 / 2 ^ 51) = 4878899596318037 / 2 ^ 51"
    by (rule fl_exact_ratio [of _ 4878899596318037 51]) simp_all
  have "newton 4 3 = fl (fl (3 + fl (4 / 3)) / 2)"
    unfolding newton_def by (simp only: of_int_numeral)
  also have "\<dots> = fl (4878899596318037 / 2 ^ 50 / 2)"
    by (simp only: fl_four_thirds s)
  also have "(4878899596318037::real) / 2 ^ 50 / 2 = 4878899596318037 / 2 ^ 51"
    by simp
  finally show ?thesis by (simp only: h)
qed

lemma newton_4_second:
  "newton 4 (4878899596318037 / 2 ^ 51) = 2259017120780393 / 2 ^ 50"
proof -
  have q: "fl (4 / (4878899596318037 / 2 ^ 51)) = 4157168886803535 / 2 ^ 51"
  proof -
    have "fl (4 / (4878899596318037 / 2 ^ 51)) =
        of_int (round_even (4 / (4878899596318037 / 2 ^ 51) / 2 powi (- 52))) * 2 powi (- 52)"
      by (rule fl_eval) simp_all
    moreover have "round_even (4 / (4878899596318037 / 2 ^ 51) / 2 powi (- 52)) = 8314337773607070"
      by (simp add: round_even_def)
    ultimately show ?thesis by simp
  qed
  have s: "fl (4878899596318037 / 2 ^ 51 + 4157168886803535 / 2 ^ 51) = 2259017120780393 / 2 ^ 49"
  proof -
    have "fl (4878899596318037 / 2 ^ 51 + 4157168886803535 / 2 ^ 51) =
        of_int (round_even ((4878899596318037 / 2 ^ 51 + 4157168886803535 / 2 ^ 51) / 2 powi (- 50)))
          * 2 powi (- 50)"
      by (rule fl_eval) simp_all
    moreover have "round_even ((4878899596318037 / 2 ^ 51 + 4157168886803535 / 2 ^ 51) / 2 powi (- 50))
        = 4518034241560786"
      by (simp add: round_even_def)
    ultimately show ?thesis by simp
  qed
  have h: "fl (2259017120780393 / 2 ^ 50) = 2259017120780393 / 2 ^ 50"
    by (rule fl_exact_ratio [of _ 2259017120780393 50]) simp_all
  have "newton 4 (4878899596318037 / 2 ^ 51) =
      fl (fl (4878899596318037 / 2 ^ 51 + fl (4 / (4878899596318037 / 2 ^ 51))) / 2)"
    unfolding newton_def by (simp only: of_int_numeral)
  also have "\<dots> = fl (2259017120780393 / 2 ^ 49 / 2)"
    by (simp only: q s)
  also have "(2259017120780393::real) / 2 ^ 49 / 2 = 2259017120780393 / 2 ^ 50"
    by simp
  finally show ?thesis by (simp only: h)
qed

text \<open>
  The run of \<^verbatim>\<open>mySqrt(4)\<close>: from \<open>a = 3\<close> two iterations, to 2.1666666666666665 and
  to 2.0064102564102564, whose square is below the threshold.
\<close>

lemma mySqrt_4: "mySqrt 4 = Some (Inr (2, [3, 4878899596318037 / 2 ^ 51]))"
proof -
  have z: "(0::int) \<le> 4" "(4::int) \<le> INT_MAX" by (simp_all add: INT_MAX_def)
  note th = threshold_bounds [OF z]
  define a1 :: real where "a1 = 4878899596318037 / 2 ^ 51"
  define a2 :: real where "a2 = 2259017120780393 / 2 ^ 50"
  have f9: "fl 9 = 9" using fl_of_int [of 9] by simp
  have t0: "loop_test 4 3 = Inr True"
    using th by (subst loop_test_eq [OF z]) (simp_all add: f9)
  have n0: "newton_step 4 3 = Inr a1"
    by (subst newton_step_eq [OF z]) (simp_all add: newton_4_3 a1_def)
  have "fl (9 / 2) \<le> fl (a1 * a1)"
    by (rule fl_mono) (simp_all add: a1_def)
  moreover have "fl (9 / 2) = 9 / 2"
    by (rule fl_exact_ratio [of _ 9 1]) simp_all
  ultimately have "threshold 4 < fl (a1 * a1)" using th by simp
  then have t1: "loop_test 4 a1 = Inr True"
    by (subst loop_test_eq [OF z]) (simp_all add: a1_def)
  have nw: "newton 4 a1 = a2" unfolding a1_def a2_def by (rule newton_4_second)
  have b1: "1 / 4 \<le> a1" "a1 \<le> 2 ^ 30" by (simp_all add: a1_def)
  have n1: "newton_step 4 a1 = Inr a2"
    using newton_step_eq [OF z b1] nw by simp
  have "fl (a2 * a2) \<le> fl (65 / 16)"
    by (rule fl_mono) (simp_all add: a2_def)
  moreover have "fl (65 / 16) = 65 / 16"
    by (rule fl_exact_ratio [of _ 65 4]) simp_all
  ultimately have "\<not> threshold 4 < fl (a2 * a2)" using th by simp
  then have t2: "loop_test 4 a2 = Inr False"
    by (subst loop_test_eq [OF z]) (simp_all add: a2_def)
  have "sqrt_loop 4 a2 [3, a1] = Some (Inr (a2, [3, a1]))"
    by (subst sqrt_loop.simps) (simp add: t2)
  then have "sqrt_loop 4 a1 [3] = Some (Inr (a2, [3, a1]))"
    by (subst sqrt_loop.simps) (simp add: t1 n1)
  then have l: "sqrt_loop 4 3 [] = Some (Inr (a2, [3, a1]))"
    by (subst sqrt_loop.simps) (simp add: t0 n0)
  have "to_int (1 + to_int (tdiv 4 2)) = 3"
    by (simp add: tdiv_def to_int_def wrap_def)
  moreover have "d_of_int 3 = Inr 3"
    using to_double_Inr [of 3] fl_of_int [of 3] by (simp add: d_of_int_def)
  moreover have "\<lfloor>a2\<rfloor> = 2" by (simp add: a2_def)
  then have "d_to_int a2 = Inr 2"
    by (simp add: d_to_int_def trunc_def a2_def)
  ultimately show ?thesis by (simp add: mySqrt_def l a1_def)
qed

text \<open>
  Claim C1. For every \<open>x\<close> with \<open>0 \<le> x \<le> 2\<^sup>3\<^sup>1 - 1\<close>, \<^verbatim>\<open>mySqrt(x)\<close> returns the integer
  \<open>r\<close> with \<open>r * r \<le> x < (r + 1) * (r + 1)\<close>, that is \<open>\<lfloor>sqrt x\<rfloor>\<close>. The result is what
  the Newton iteration of the source, run in double arithmetic from \<open>1 + x / 2\<close> until
  \<open>a * a \<le> x + 0.1\<close> and then truncated, produces.
\<close>

theorem mySqrt_floor_sqrt:
  assumes "0 \<le> x" "x \<le> INT_MAX"
  shows "\<exists>r ds. mySqrt x = Some (Inr (r, ds)) \<and> 0 \<le> r \<and> r * r \<le> x \<and>
           x < (r + 1) * (r + 1) \<and> r = \<lfloor>sqrt (of_int x)\<rfloor>"
proof -
  from mySqrt_run [OF assms] obtain r ds where
    run: "mySqrt x = Some (Inr (r, ds))" and r: "root_ok x r" by blast
  have r0: "0 \<le> r" and lo: "r * r \<le> x" and hi: "x < (r + 1) * (r + 1)"
    using r by (simp_all add: root_ok_def)
  have "(real_of_int r)\<^sup>2 \<le> of_int x"
    using lo by (metis of_int_le_iff of_int_mult power2_eq_square)
  then have a: "of_int r \<le> sqrt (of_int x)" by (rule real_le_rsqrt)
  have "real_of_int x < (of_int (r + 1))\<^sup>2"
    using hi by (metis of_int_less_iff of_int_mult power2_eq_square)
  moreover have "(0::real) \<le> of_int (r + 1)" using r0 by simp
  ultimately have "sqrt (of_int x) < of_int (r + 1)" by (intro real_less_lsqrt)
  then have "sqrt (real_of_int x) < of_int r + 1" by simp
  with a have "\<lfloor>sqrt (real_of_int x)\<rfloor> = r" by (rule floor_unique)
  with run r0 lo hi show ?thesis by blast
qed

text \<open>
  The examples of the specification: \<open>mySqrt(4) = 2\<close>, \<open>mySqrt(8) = 2\<close>, \<open>mySqrt(0) = 0\<close>.
  The runs for 4 and 0 are evaluated, with the doubles the loop divides by; the result
  for 8 follows from the theorem.
\<close>

theorem mySqrt_floor_sqrt_witness:
  "(0::int) \<le> 8 \<and> (8::int) \<le> INT_MAX \<and>
   mySqrt 4 = Some (Inr (2, [3, 4878899596318037 / 2 ^ 51])) \<and>
   (\<exists>ds. mySqrt 8 = Some (Inr (2, ds))) \<and>
   mySqrt 0 = Some (Inr (0, [1, 1 / 2]))"
proof -
  have h: "(0::int) \<le> 8" "(8::int) \<le> INT_MAX" by (simp_all add: INT_MAX_def)
  from mySqrt_floor_sqrt [OF h] obtain r ds where
    "mySqrt 8 = Some (Inr (r, ds))" "root_ok 8 r"
    unfolding root_ok_def by blast
  moreover have "root_ok 8 2" by (simp add: root_ok_def)
  ultimately have "mySqrt 8 = Some (Inr (2, ds))" using root_unique by blast
  then have "\<exists>ds. mySqrt 8 = Some (Inr (2, ds))" ..
  then show ?thesis using h mySqrt_4 mySqrt_0 by simp
qed

text \<open>
  Claim C6. For every \<open>x\<close> with \<open>0 \<le> x \<le> 2\<^sup>3\<^sup>1 - 1\<close>, the run of \<^verbatim>\<open>mySqrt(x)\<close> returns
  without a fault (so without a division by zero), and the value of \<open>a\<close> at every
  evaluation of \<^verbatim>\<open>x/a\<close> is strictly positive.
\<close>

theorem mySqrt_divisors_positive:
  assumes "0 \<le> x" "x \<le> INT_MAX"
  shows "\<exists>r ds. mySqrt x = Some (Inr (r, ds)) \<and> (\<forall>d\<in>set ds. 0 < d)"
  using mySqrt_run [OF assms] by blast

text \<open>
  The two inputs the specification singles out: \<open>x = 0\<close> divides by 1 and by 0.5 only,
  and \<open>x = 1\<close> does not enter the loop.
\<close>

theorem mySqrt_divisors_positive_witness:
  "(0::int) \<le> 0 \<and> (0::int) \<le> INT_MAX \<and>
   mySqrt 0 = Some (Inr (0, [1, 1 / 2])) \<and> (0::real) < 1 \<and> (0::real) < 1 / 2 \<and>
   mySqrt 1 = Some (Inr (1, []))"
  using mySqrt_divisors_positive [of 0] by (simp add: mySqrt_0 mySqrt_1 INT_MAX_def)

text \<open>
  Claim C8. For every \<open>x\<close> with \<open>0 \<le> x \<le> 2\<^sup>3\<^sup>1 - 1\<close>, the Newton loop of \<^verbatim>\<open>mySqrt\<close>,
  started at \<open>a = 1 + \<lfloor>x / 2\<rfloor>\<close>, returns after finitely many iterations (one per
  element of \<open>ds\<close>), and so does \<^verbatim>\<open>mySqrt(x)\<close>.
\<close>

theorem mySqrt_loop_terminates:
  assumes "0 \<le> x" "x \<le> INT_MAX"
  shows "\<exists>a ds r. sqrt_loop x (of_int (1 + x div 2)) [] = Some (Inr (a, ds)) \<and>
           mySqrt x = Some (Inr (r, ds))"
proof -
  from root_exists [OF assms(1)] obtain r where r: "root_ok x r" ..
  note i = initial_iterate [OF assms r]
  from sqrt_loop_run [OF assms r i(3,4,5), of "[]"] obtain a ds where
    run: "sqrt_loop x (of_int (1 + x div 2)) [] = Some (Inr (a, ds))" by auto
  from mySqrt_run [OF assms] obtain r' ds' where m: "mySqrt x = Some (Inr (r', ds'))" by blast
  have "mySqrt x = Some (and_then (d_to_int a) (\<lambda>r. Inr (r, ds)))"
    using run by (simp add: mySqrt_def i(1,2))
  with m have "and_then (d_to_int a) (\<lambda>r. Inr (r, ds)) = Inr (r', ds')" by simp
  then have "ds' = ds" by (cases "d_to_int a") simp_all
  with run m show ?thesis by blast
qed

text \<open>For \<open>x = 0\<close> the loop runs twice and stops at \<open>a = 0.25\<close>.\<close>

theorem mySqrt_loop_terminates_witness:
  "(0::int) \<le> 0 \<and> (0::int) \<le> INT_MAX \<and>
   sqrt_loop 0 (of_int (1 + 0 div 2)) [] = Some (Inr (1 / 4, [1, 1 / 2])) \<and>
   mySqrt 0 = Some (Inr (0, [1, 1 / 2]))"
  using mySqrt_loop_terminates [of 0] by (simp add: sqrt_loop_0 mySqrt_0 INT_MAX_def)

section \<open>Width of the integer intermediates\<close>

text \<open>
  Claim C7. On the stated domains the integer intermediates do not overflow the 64-bit
  types they are computed in: \<^verbatim>\<open>8*n+1\<close> of \<^verbatim>\<open>arrangeCoins\<close> is the exact value, and
  at every invocation of the oracle in \<^verbatim>\<open>guessNumber\<close> the sums \<^verbatim>\<open>left+right\<close> and
  \<^verbatim>\<open>left+right+1\<close> are exact and the candidate is the exact midpoint.
\<close>

theorem wide_intermediates_exact:
  assumes "0 \<le> m" "m \<le> INT_MAX" "1 \<le> n" "n \<le> INT_MAX" "1 \<le> s" "s \<le> n"
  shows "to_long (8 * m) = 8 * m \<and> discriminant m = 8 * m + 1 \<and>
         (\<exists>r calls. guessNumber s n = Some (r, calls) \<and> calls \<noteq> [] \<and>
            p_left (hd calls) = 1 \<and> p_right (hd calls) = n \<and>
            (\<forall>p\<in>set calls.
               to_long (p_left p + p_right p) = p_left p + p_right p \<and>
               to_long (p_left p + p_right p + 1) = p_left p + p_right p + 1 \<and>
               p_c p = midpoint (p_left p) (p_right p) \<and>
               p_c p = (p_left p + p_right p + 1) div 2))"
proof -
  have a: "to_long (8 * m) = 8 * m"
    using assms(1,2) by (intro to_long_id) (simp_all add: INT_MAX_def)
  have "to_long (8 * m + 1) = 8 * m + 1"
    using assms(1,2) by (intro to_long_id) (simp_all add: INT_MAX_def)
  then have b: "discriminant m = 8 * m + 1" by (simp add: discriminant_def a)
  from guessNumber_run [OF assms(3-6)] obtain ps where
    ps: "guessNumber s n = Some (s, ps)" "\<forall>p\<in>set ps. probe_ok s n p" "ps \<noteq> []"
      "hd ps = ask 1 n (midpoint 1 n)"
    by blast
  have "to_long (p_left p + p_right p) = p_left p + p_right p \<and>
        to_long (p_left p + p_right p + 1) = p_left p + p_right p + 1 \<and>
        p_c p = midpoint (p_left p) (p_right p) \<and>
        p_c p = (p_left p + p_right p + 1) div 2" if "p \<in> set ps" for p
  proof -
    have ok: "probe_ok s n p" using ps(2) that by blast
    then have l: "1 \<le> p_left p" "p_left p \<le> p_right p" "p_right p \<le> INT_MAX"
      and c: "p_c p = (p_left p + p_right p + 1) div 2"
      using assms(4) by (simp_all add: probe_ok_def)
    have "to_long (p_left p + p_right p) = p_left p + p_right p"
      using l by (intro to_long_id) (simp_all add: INT_MAX_def)
    moreover have "to_long (p_left p + p_right p + 1) = p_left p + p_right p + 1"
      using l by (intro to_long_id) (simp_all add: INT_MAX_def)
    moreover have "p_c p = midpoint (p_left p) (p_right p)"
      using midpoint_exact [OF l] c by simp
    ultimately show ?thesis using c by simp
  qed
  moreover have "p_left (hd ps) = 1" "p_right (hd ps) = n"
    by (simp_all add: ps(4) ask_def)
  ultimately show ?thesis using a b ps(1,3) by blast
qed

text \<open>
  At the upper bound \<open>2\<^sup>3\<^sup>1 - 1\<close> the first midpoint needs \<open>left + right + 1 = 2\<^sup>3\<^sup>1 + 1\<close> and
  the discriminant is \<open>2\<^sup>3\<^sup>4 - 7\<close>; neither fits the 32 bits of an \<^verbatim>\<open>int\<close>.
\<close>

theorem wide_intermediates_exact_witness:
  "(0::int) \<le> 2147483647 \<and> (2147483647::int) \<le> INT_MAX \<and> (1::int) \<le> 2147483647 \<and>
   discriminant 2147483647 = 17179869177 \<and>
   (\<exists>r calls. guessNumber 2147483647 2147483647 = Some (r, calls) \<and>
      p_left (hd calls) + p_right (hd calls) + 1 = 2147483649 \<and> p_c (hd calls) = 1073741824) \<and>
   to_int (1 + 2147483647 + 1) \<noteq> 1 + 2147483647 + 1 \<and>
   to_int (8 * 2147483647 + 1) \<noteq> 8 * 2147483647 + 1"
proof -
  have h: "(0::int) \<le> 2147483647" "(2147483647::int) \<le> INT_MAX" "(1::int) \<le> 2147483647"
    "(2147483647::int) \<le> 2147483647"
    by (simp_all add: INT_MAX_def)
  from wide_intermediates_exact [OF h(1,2) h(3,2) h(3,4)] obtain r calls where
    d: "discriminant 2147483647 = 8 * 2147483647 + 1"
    and g: "guessNumber 2147483647 2147483647 = Some (r, calls)" "calls \<noteq> []"
      "p_left (hd calls) = 1" "p_right (hd calls) = 2147483647"
    and all: "\<forall>p\<in>set calls. p_c p = (p_left p + p_right p + 1) div 2"
    by blast
  have "hd calls \<in> set calls" using g(2) by simp
  then have "p_c (hd calls) = (p_left (hd calls) + p_right (hd calls) + 1) div 2"
    using all by blast
  then have "p_c (hd calls) = 1073741824" by (simp add: g(3,4))
  moreover have "to_int (1 + 2147483647 + 1) \<noteq> 1 + 2147483647 + 1"
    by (simp add: to_int_def wrap_def)
  moreover have "to_int (8 * 2147483647 + 1) \<noteq> 8 * 2147483647 + 1"
    by (simp add: to_int_def wrap_def)
  ultimately show ?thesis using d g h by auto
qed

section \<open>The result of guessNumber depends on the oracle only\<close>

text \<open>A derivation is determined by its start and the answers of the oracle.\<close>

lemma guess_steps_deterministic:
  assumes "guess_steps api left right c g res" "guess_steps api left right c g res'"
  shows "res = res'"
  using assms
proof (induction arbitrary: res' rule: guess_steps.induct)
  case (found g left right c)
  from found.prems found.hyps show ?case
    by (cases rule: guess_steps.cases) simp_all
next
  case (higher g left' c c' right res left)
  from higher.prems higher.hyps have "guess_steps api left' right c' (api (to_int c')) res'"
    by (cases rule: guess_steps.cases) simp_all
  then show ?case by (rule higher.IH)
next
  case (lower g right' c c' left res right)
  from lower.prems lower.hyps have "guess_steps api left right' c' (api (to_int c')) res'"
    by (cases rule: guess_steps.cases) simp_all
  then show ?case by (rule lower.IH)
next
  case (again g left right c res)
  from again.prems again.hyps have "guess_steps api left right c (api (to_int c)) res'"
    by (cases rule: guess_steps.cases) simp_all
  then show ?case by (rule again.IH)
qed

text \<open>Every result of the loop function is the result of a derivation.\<close>

lemma guess_loop_steps:
  assumes "guess_loop s left right c g calls = Some y"
  shows "guess_steps (guess s) left right c g (fst y)"
proof (rule guess_loop.raw_induct
    [where P = "\<lambda>s left right c g calls y. guess_steps (guess s) left right c g (fst y)",
      OF _ assms], goal_cases)
  case (1 f s left right c g calls y)
  show ?case
  proof (cases "g = 0")
    case True
    then show ?thesis using 1(2) by (auto intro: guess_steps.found)
  next
    case False
    consider (hi) "g = 1" | (lo) "g = - 1" | (other) "g \<noteq> 1" "g \<noteq> - 1" by blast
    then show ?thesis
    proof cases
      case hi
      define left' where "left' = to_long (c + 1)"
      define c' where "c' = midpoint left' right"
      have "f s left' right c' (guess s (to_int c')) (calls @ [ask left' right c']) = Some y"
        using 1(2) hi by (simp add: Let_def left'_def c'_def)
      then have "guess_steps (guess s) left' right c' (guess s (to_int c')) (fst y)"
        by (rule 1(1))
      with hi left'_def c'_def show ?thesis by (rule guess_steps.higher)
    next
      case lo
      define right' where "right' = to_long (c - 1)"
      define c' where "c' = midpoint left right'"
      have "f s left right' c' (guess s (to_int c')) (calls @ [ask left right' c']) = Some y"
        using 1(2) lo by (simp add: Let_def right'_def c'_def)
      then have "guess_steps (guess s) left right' c' (guess s (to_int c')) (fst y)"
        by (rule 1(1))
      with lo right'_def c'_def show ?thesis by (rule guess_steps.lower)
    next
      case other
      have "f s left right c (guess s (to_int c)) (calls @ [ask left right c]) = Some y"
        using 1(2) False other by simp
      then have "guess_steps (guess s) left right c (guess s (to_int c)) (fst y)"
        by (rule 1(1))
      with False other show ?thesis by (rule guess_steps.again)
    qed
  qed
qed

lemma guessNumber_rel_sound:
  assumes "guessNumber s n = Some (res, calls)"
  shows "guessNumber_rel (guess s) n res"
  using guess_loop_steps [of s 1 "to_long n" "midpoint 1 (to_long n)" _ _ "(res, calls)"] assms
  by (simp add: guessNumber_def guessNumber_rel_def Let_def)

text \<open>
  Against the oracle for a secret \<open>s\<close> in \<open>[1, n]\<close> the run has one result, the secret:
  the result depends on the secret through the answers of the oracle only.
\<close>

lemma guessNumber_rel_iff:
  assumes "1 \<le> n" "n \<le> INT_MAX" "1 \<le> s" "s \<le> n"
  shows "guessNumber_rel (guess s) n r \<longleftrightarrow> r = s"
proof
  from guessNumber_run [OF assms] obtain ps where "guessNumber s n = Some (s, ps)" by blast
  then have s: "guessNumber_rel (guess s) n s" by (rule guessNumber_rel_sound)
  show "r = s" if "guessNumber_rel (guess s) n r"
    using that s unfolding guessNumber_rel_def by (rule guess_steps_deterministic)
  show "guessNumber_rel (guess s) n r" if "r = s"
    using that s by simp
qed

end
